theory Spec2Isabelle
  imports Complex_Main
begin

section \<open>Python text primitives used by app.py\<close>

text \<open>
  A Python \<open>str\<close> is modelled as a \<open>string\<close> in which every \<open>char\<close> stands for one
  code point in the range 0..255 (Latin-1), so \<open>length\<close> counts what \<open>len\<close> counts.
  The two character classes below are the restriction of Python's Unicode tables to
  that range. Python \<open>float\<close> values (pixel widths, heights, coordinates) are modelled
  as exact reals; the rounding of doubles is written out only where the end of a drawn
  block is compared with its measured height.
\<close>

definition isspace :: "char \<Rightarrow> bool" where
  \<comment> \<open>\<open>str.isspace\<close> on one code point; also the separator class of \<open>str.split()\<close>
      and \<open>str.strip()\<close>: U+0009..U+000D, U+001C..U+001F, U+0020, U+0085, U+00A0.\<close>
  "isspace c =
     (let n = (of_char c :: nat)
      in (9 \<le> n \<and> n \<le> 13) \<or> (28 \<le> n \<and> n \<le> 32) \<or> n = 133 \<or> n = 160)"

definition isalnum :: "char \<Rightarrow> bool" where
  \<comment> \<open>\<open>str.isalnum\<close> on one code point: ASCII digits and letters, and in the upper half
      U+00AA, U+00B2, U+00B3, U+00B5, U+00B9, U+00BA, U+00BC..U+00BE, U+00C0..U+00FF
      without the two signs U+00D7 and U+00F7.\<close>
  "isalnum c =
     (let n = (of_char c :: nat)
      in (48 \<le> n \<and> n \<le> 57) \<or> (65 \<le> n \<and> n \<le> 90) \<or> (97 \<le> n \<and> n \<le> 122)
         \<or> n = 170 \<or> n = 178 \<or> n = 179 \<or> n = 181 \<or> n = 185 \<or> n = 186
         \<or> (188 \<le> n \<and> n \<le> 190)
         \<or> (192 \<le> n \<and> n \<le> 255 \<and> n \<noteq> 215 \<and> n \<noteq> 247))"

fun split_from :: "string \<Rightarrow> string \<Rightarrow> string list" where
  \<comment> \<open>\<open>text.split()\<close> scanning left to right; the first argument is the word being read.\<close>
  "split_from cur [] = (if cur = [] then [] else [cur])"
| "split_from cur (c # cs) =
     (if isspace c then (if cur = [] then split_from [] cs else cur # split_from [] cs)
      else split_from (cur @ [c]) cs)"

definition split :: "string \<Rightarrow> string list" where
  \<comment> \<open>\<open>text.split()\<close>: the maximal runs of non-whitespace characters, in order.\<close>
  "split text = split_from [] text"

fun join :: "string \<Rightarrow> string list \<Rightarrow> string" where
  \<comment> \<open>\<open>sep.join(xs)\<close>\<close>
  "join sep [] = []"
| "join sep [x] = x"
| "join sep (x # y # ys) = x @ sep @ join sep (y # ys)"

definition strip :: "string \<Rightarrow> string" where
  \<comment> \<open>\<open>s.strip()\<close>: leading and trailing whitespace removed.\<close>
  "strip s = rev (dropWhile isspace (rev (dropWhile isspace s)))"

definition py_int :: "real \<Rightarrow> int" where
  \<comment> \<open>\<open>int(x)\<close> on a float: truncation towards zero.\<close>
  "py_int x = (if 0 \<le> x then \<lfloor>x\<rfloor> else \<lceil>x\<rceil>)"

fun max_by_len :: "string \<Rightarrow> string list \<Rightarrow> string" where
  \<comment> \<open>\<open>max(words, key=len)\<close> on the non-empty list \<open>best # rest\<close>: the running maximum is
      replaced only by a strictly longer word, so the first longest word wins.\<close>
  "max_by_len best [] = best"
| "max_by_len best (w # ws) = max_by_len (if length best < length w then w else best) ws"

section \<open>The imaging library, as the program sees it\<close>

text \<open>
  PIL is not part of the repository. Its font objects are an arbitrary type \<open>'f\<close> and
  the calls app.py makes are the fields of an environment record. A call that raises
  returns \<open>None\<close>. \<open>font_size\<close> is the attribute read by
  \<open>getattr(font, 'size', default)\<close>: \<open>None\<close> when the object has no such attribute.
  \<open>textbbox\<close> is \<open>draw.textbbox((0, 0), text, font=font)\<close> and \<open>textlength\<close> is
  \<open>draw.textlength(text, font=font)\<close>.
\<close>

record 'f pil =
  truetype :: "string \<Rightarrow> int \<Rightarrow> 'f option"
  load_default :: "'f"
  has_set_variation_by_name :: "'f \<Rightarrow> bool"
  set_variation_by_name :: "'f \<Rightarrow> string \<Rightarrow> 'f option"
  set_variation_by_axes :: "'f \<Rightarrow> int list \<Rightarrow> 'f option"
  font_size :: "'f \<Rightarrow> int option"
  textbbox :: "'f \<Rightarrow> string \<Rightarrow> real \<times> real \<times> real \<times> real"
  textlength :: "'f \<Rightarrow> string \<Rightarrow> real"

datatype error = ZeroDivisionError | ValueError

type_synonym 'f text_op = "(real \<times> real) \<times> string \<times> 'f \<times> string"
  \<comment> \<open>one call \<open>draw.text((x, y), line, font=font, fill=fill)\<close>\<close>

definition getattr_size :: "'f pil \<Rightarrow> 'f \<Rightarrow> int \<Rightarrow> int" where
  \<comment> \<open>\<open>getattr(font, 'size', dflt)\<close>\<close>
  "getattr_size P font dflt = (case font_size P font of Some s \<Rightarrow> s | None \<Rightarrow> dflt)"

definition bbox_width :: "real \<times> real \<times> real \<times> real \<Rightarrow> real" where
  \<comment> \<open>\<open>bbox[2] - bbox[0]\<close>\<close>
  "bbox_width bbox = (case bbox of (x0, y0, x1, y1) \<Rightarrow> x1 - x0)"

section \<open>Constants (app.py, lines 11-30)\<close>

definition MAX_WIDTH :: real where "MAX_WIDTH = 1700"
definition POS_TITLE :: "real \<times> real" where "POS_TITLE = (2100, 300)"
definition POS_PRONUNCIATION :: "real \<times> real" where "POS_PRONUNCIATION = (2100, 1000)"
definition POS_DEFINITION :: "real \<times> real" where "POS_DEFINITION = (2100, 1300)"
definition SPACING :: real where "SPACING = 100"

datatype font_key = normal | italic

fun FONT_FILES :: "font_key \<Rightarrow> string" where
  "FONT_FILES normal = ''Cabin-Variable.ttf''"
| "FONT_FILES italic = ''Cabin-Italic-Variable.ttf''"

datatype field = Title | Pronunciation | Definition

record style =
  st_size :: int
  st_font_file :: font_key
  st_variation :: string
  st_pos :: "real \<times> real"

fun STYLES :: "field \<Rightarrow> style" where
  "STYLES Title =
     \<lparr>st_size = 255, st_font_file = normal, st_variation = ''Bold'', st_pos = POS_TITLE\<rparr>"
| "STYLES Pronunciation =
     \<lparr>st_size = 116, st_font_file = italic, st_variation = ''Italic'',
      st_pos = POS_PRONUNCIATION\<rparr>"
| "STYLES Definition =
     \<lparr>st_size = 157, st_font_file = normal, st_variation = ''Medium'',
      st_pos = POS_DEFINITION\<rparr>"

section \<open>load_font (app.py, lines 32-47)\<close>

definition load_font :: "'f pil \<Rightarrow> string \<Rightarrow> int \<Rightarrow> string \<Rightarrow> 'f" where
  \<comment> \<open>A failing \<open>ImageFont.truetype\<close> falls back to the default font. A variation name
      that the font rejects falls back to a weight axis for Bold and Medium, and to the
      unmodified font when that fails too. The empty variation stands for a falsy one.\<close>
  "load_font P font_file sz variation =
     (case truetype P font_file sz of
        None \<Rightarrow> load_default P
      | Some font \<Rightarrow>
          if variation \<noteq> [] \<and> has_set_variation_by_name P font then
            (case set_variation_by_name P font variation of
               Some font' \<Rightarrow> font'
             | None \<Rightarrow>
                 if variation = ''Bold'' then
                   (case set_variation_by_axes P font [700] of
                      Some font' \<Rightarrow> font' | None \<Rightarrow> font)
                 else if variation = ''Medium'' then
                   (case set_variation_by_axes P font [500] of
                      Some font' \<Rightarrow> font' | None \<Rightarrow> font)
                 else font)
          else font)"

section \<open>The shrink loop (app.py, lines 56-60 and 93-97)\<close>

definition shrink_size :: "int \<Rightarrow> int" where
  \<comment> \<open>\<open>int(max_size * 0.9)\<close> for an integer \<open>max_size\<close>: nine tenths of it, truncated
      towards zero. (The double nearest to 0.9 exceeds 0.9 by about \<open>2.2e-17\<close>, too
      little to carry the rounded product of a font size across an integer, so the float
      computation yields this value.)\<close>
  "shrink_size max_size =
     (if 0 \<le> max_size then (max_size * 9) div 10 else - ((- max_size * 9) div 10))"

definition shrink_guard :: "'f pil \<Rightarrow> real \<Rightarrow> string \<Rightarrow> int \<times> 'f \<Rightarrow> bool" where
  \<comment> \<open>\<open>(bbox[2] - bbox[0]) > max_width and max_size > 10\<close>, where \<open>bbox\<close> is always the
      box of \<open>longest_word\<close> in the current \<open>font\<close>.\<close>
  "shrink_guard P max_width longest_word st =
     (case st of (max_size, font) \<Rightarrow>
        bbox_width (textbbox P font longest_word) > max_width \<and> max_size > 10)"

definition shrink_body :: "'f pil \<Rightarrow> string \<Rightarrow> string \<Rightarrow> int \<times> 'f \<Rightarrow> int \<times> 'f" where
  \<comment> \<open>\<open>max_size = int(max_size * 0.9); font = load_font(font_file, max_size, variation)\<close>\<close>
  "shrink_body P font_file variation st =
     (case st of (max_size, font) \<Rightarrow>
        (let max_size' = shrink_size max_size
         in (max_size', load_font P font_file max_size' variation)))"

function shrink_loop ::
  "'f pil \<Rightarrow> string \<Rightarrow> string \<Rightarrow> real \<Rightarrow> string \<Rightarrow> int \<times> 'f \<Rightarrow> int \<times> 'f" where
  "shrink_loop P font_file variation max_width longest_word st =
     (if shrink_guard P max_width longest_word st
      then shrink_loop P font_file variation max_width longest_word
             (shrink_body P font_file variation st)
      else st)"
  by pat_completeness auto
termination
  by (relation "measure (\<lambda>(P, font_file, variation, max_width, longest_word, st). nat (fst st))")
    (auto simp: shrink_guard_def shrink_body_def shrink_size_def Let_def)

declare shrink_loop.simps [simp del]

definition fit_font ::
  "'f pil \<Rightarrow> string \<Rightarrow> int \<Rightarrow> string \<Rightarrow> real \<Rightarrow> string \<Rightarrow> int \<times> 'f" where
  \<comment> \<open>The font loaded at \<open>max_size\<close> (line 50 / 87) followed by the loop, for a given
      \<open>longest_word\<close>: the resulting pair \<open>(max_size, font)\<close>.\<close>
  "fit_font P font_file max_size variation max_width longest_word =
     shrink_loop P font_file variation max_width longest_word
       (max_size, load_font P font_file max_size variation)"

section \<open>The wrapping loop (app.py, lines 67-78 and 99-110)\<close>

fun wrap_loop ::
  "'f pil \<Rightarrow> 'f \<Rightarrow> real \<Rightarrow> string list \<Rightarrow> string list \<Rightarrow> string list
     \<Rightarrow> string list \<times> string list" where
  \<comment> \<open>The \<open>for word in words\<close> loop on the state \<open>(final_lines, current_line)\<close>.\<close>
  "wrap_loop P current_font max_width final_lines current_line [] =
     (final_lines, current_line)"
| "wrap_loop P current_font max_width final_lines current_line (word # words) =
     (let test_line = join '' '' (current_line @ [word]);
          w = textlength P current_font test_line
      in if w \<le> max_width
         then wrap_loop P current_font max_width final_lines (current_line @ [word]) words
         else wrap_loop P current_font max_width
                (if current_line \<noteq> [] then final_lines @ [join '' '' current_line]
                 else final_lines)
                [word] words)"

definition wrap_lines :: "'f pil \<Rightarrow> 'f \<Rightarrow> real \<Rightarrow> string list \<Rightarrow> string list" where
  \<comment> \<open>The loop started on two empty lists, and the last line committed after it.\<close>
  "wrap_lines P current_font max_width words =
     (case wrap_loop P current_font max_width [] [] words of
        (final_lines, current_line) \<Rightarrow>
          if current_line \<noteq> [] then final_lines @ [join '' '' current_line]
          else final_lines)"

section \<open>draw_text_wrapped (app.py, lines 49-84)\<close>

fun draw_lines ::
  "'f text_op list \<Rightarrow> real \<Rightarrow> real \<Rightarrow> real \<Rightarrow> 'f \<Rightarrow> string \<Rightarrow> string list
     \<Rightarrow> 'f text_op list" where
  \<comment> \<open>\<open>for line in final_lines: draw.text((x, y), line, ...); y += line_height\<close>\<close>
  "draw_lines draw x y line_height font fill [] = draw"
| "draw_lines draw x y line_height font fill (line # lines) =
     draw_lines (draw @ [((x, y), line, font, fill)]) x (y + line_height)
       line_height font fill lines"

definition draw_text_wrapped ::
  "'f pil \<Rightarrow> 'f text_op list \<Rightarrow> string \<Rightarrow> real \<times> real \<Rightarrow> real \<Rightarrow> string \<Rightarrow> int \<Rightarrow> string
     \<Rightarrow> string \<Rightarrow> real \<Rightarrow> error + 'f text_op list" where
  \<comment> \<open>The canvas behind \<open>draw\<close> is the list of text calls made so far; the function
      returns it extended. Lines 62-64 compute values that are never used, but they can
      raise: a division by zero when the advance of \<open>x\<close> is zero, and
      \<open>textwrap.wrap\<close> rejects a width that is not positive.\<close>
  "draw_text_wrapped P draw text pos max_width font_file max_size variation fill line_spacing =
     (case split text of
        [] \<Rightarrow> Inr draw
      | first_word # more_words \<Rightarrow>
          (let words = first_word # more_words;
               longest_word = max_by_len first_word more_words
           in case fit_font P font_file max_size variation max_width longest_word of
                (max_size, font) \<Rightarrow>
                  (let avg_char_width = textlength P font ''x''
                   in if avg_char_width * 0.8 = 0 then Inl ZeroDivisionError
                      else
                        (let width_in_chars = py_int (max_width / (avg_char_width * 0.8))
                         in if width_in_chars \<le> 0 then Inl ValueError
                            else
                              (let current_font = font;
                                   final_lines = wrap_lines P current_font max_width words;
                                   line_height =
                                     of_int (getattr_size P current_font max_size) * line_spacing
                               in case pos of (x, y) \<Rightarrow>
                                    Inr (draw_lines draw x y line_height current_font fill
                                           final_lines))))))"

section \<open>calculate_text_height (app.py, lines 86-116)\<close>

definition calculate_text_height ::
  "'f pil \<Rightarrow> string \<Rightarrow> string \<Rightarrow> int \<Rightarrow> string \<Rightarrow> real \<Rightarrow> bool \<Rightarrow> real \<Rightarrow> real \<times> 'f \<times> nat" where
  \<comment> \<open>Returns \<open>(height, font, line_count)\<close>. The \<open>draw\<close> argument is only measured with,
      which the environment does.\<close>
  "calculate_text_height P text font_file max_size variation max_width wrapped line_spacing =
     (let font = load_font P font_file max_size variation
      in if wrapped then
           (case split text of
              [] \<Rightarrow> (0, font, 0)
            | first_word # more_words \<Rightarrow>
                (let words = first_word # more_words;
                     longest_word = max_by_len first_word more_words
                 in case fit_font P font_file max_size variation max_width longest_word of
                      (max_size, font) \<Rightarrow>
                        (let current_font = font;
                             lines = wrap_lines P current_font max_width words;
                             line_count = length lines;
                             line_height =
                               of_int (getattr_size P current_font max_size) * line_spacing
                         in (of_nat line_count * line_height, current_font, line_count))))
         else (of_int (getattr_size P font max_size) * 1.2, font, 1))"

section \<open>One row of the sheet (app.py, lines 160-216)\<close>

definition measure_title :: "'f pil \<Rightarrow> string \<Rightarrow> int \<times> real \<times> 'f \<times> nat" where
  \<comment> \<open>Lines 171-179: \<open>(title_size, h_title, f_title, title_lines)\<close> after the retry.\<close>
  "measure_title P title_text =
     (let title_size = st_size (STYLES Title)
      in case calculate_text_height P title_text (FONT_FILES normal) title_size ''Bold''
                MAX_WIDTH True 1.0 of
           (h_title, f_title, title_lines) \<Rightarrow>
             if title_lines > 3 then
               (let title_size = title_size - 20
                in case calculate_text_height P title_text (FONT_FILES normal) title_size
                          ''Bold'' MAX_WIDTH True 1.0 of
                     (h_title, f_title, title_lines) \<Rightarrow>
                       (title_size, h_title, f_title, title_lines))
             else (title_size, h_title, f_title, title_lines))"

definition measure_definition :: "'f pil \<Rightarrow> string \<Rightarrow> int \<times> real \<times> 'f \<times> nat" where
  \<comment> \<open>Lines 181-189: \<open>(def_size, h_def, f_def, line_count)\<close> after the retry.\<close>
  "measure_definition P def_text =
     (let def_size = st_size (STYLES Definition)
      in case calculate_text_height P def_text (FONT_FILES normal) def_size ''Medium''
                MAX_WIDTH True 1.2 of
           (h_def, f_def, line_count) \<Rightarrow>
             if line_count > 5 then
               (let def_size = 130
                in case calculate_text_height P def_text (FONT_FILES normal) def_size
                          ''Medium'' MAX_WIDTH True 1.2 of
                     (h_def, f_def, line_count) \<Rightarrow> (def_size, h_def, f_def, line_count))
             else (def_size, h_def, f_def, line_count))"

definition measure_pronunciation :: "'f pil \<Rightarrow> string \<Rightarrow> real \<times> 'f \<times> nat" where
  \<comment> \<open>Line 191.\<close>
  "measure_pronunciation P pron_text =
     calculate_text_height P pron_text (FONT_FILES italic) (st_size (STYLES Pronunciation))
       ''Italic'' MAX_WIDTH True 1.2"

record 'f row_layout =
  row_title_size :: int
  row_h_title :: real
  row_f_title :: 'f
  row_title_lines :: nat
  row_def_size :: int
  row_h_def :: real
  row_f_def :: 'f
  row_line_count :: nat
  row_h_pron :: real
  row_f_pron :: 'f
  row_total_height :: real
  row_start_y :: real

definition layout_row :: "'f pil \<Rightarrow> int \<Rightarrow> string \<Rightarrow> string \<Rightarrow> string \<Rightarrow> 'f row_layout" where
  \<comment> \<open>Lines 171-195: the local variables of one iteration once \<open>start_y\<close> is known.\<close>
  "layout_row P image_height title_text pron_text def_text =
     (case measure_title P title_text of
        (title_size, h_title, f_title, title_lines) \<Rightarrow>
     case measure_definition P def_text of
        (def_size, h_def, f_def, line_count) \<Rightarrow>
     case measure_pronunciation P pron_text of
        (h_pron, f_pron, _) \<Rightarrow>
       (let total_height = h_title + SPACING + h_pron + SPACING + h_def;
            start_y = (of_int image_height - total_height) / 2
        in \<lparr>row_title_size = title_size, row_h_title = h_title, row_f_title = f_title,
             row_title_lines = title_lines, row_def_size = def_size, row_h_def = h_def, row_f_def = f_def,
             row_line_count = line_count, row_h_pron = h_pron, row_f_pron = f_pron,
             row_total_height = total_height, row_start_y = start_y\<rparr>))"

definition draw_row ::
  "'f pil \<Rightarrow> 'f text_op list \<Rightarrow> 'f row_layout \<Rightarrow> string \<Rightarrow> string \<Rightarrow> string
     \<Rightarrow> error + 'f text_op list" where
  \<comment> \<open>Lines 198-204: the three drawing calls; an exception in one ends the row.\<close>
  "draw_row P draw L title_text pron_text def_text =
     (case draw_text_wrapped P draw title_text (fst POS_TITLE, row_start_y L) MAX_WIDTH
             (FONT_FILES normal) (getattr_size P (row_f_title L) (row_title_size L)) ''Bold''
             ''black'' 1.0 of
        Inl e \<Rightarrow> Inl e
      | Inr draw \<Rightarrow>
          (let current_y = row_start_y L + row_h_title L + SPACING
           in case draw_text_wrapped P draw pron_text (fst POS_PRONUNCIATION, current_y)
                     MAX_WIDTH (FONT_FILES italic)
                     (getattr_size P (row_f_pron L) (st_size (STYLES Pronunciation))) ''Italic''
                     ''black'' 1.2 of
                Inl e \<Rightarrow> Inl e
              | Inr draw \<Rightarrow>
                  (let current_y = current_y + row_h_pron L + SPACING
                   in draw_text_wrapped P draw def_text (fst POS_DEFINITION, current_y)
                        MAX_WIDTH (FONT_FILES normal)
                        (getattr_size P (row_f_def L) (row_def_size L)) ''Medium'' ''black'' 1.2)))"

definition safe_name :: "string \<Rightarrow> string" where
  \<comment> \<open>Line 213.\<close>
  "safe_name title_text =
     strip (filter (\<lambda>c. isalnum c \<or> c \<in> set [CHR '' '', CHR ''-'', CHR ''_'']) title_text)"

definition render_row ::
  "'f pil \<Rightarrow> int \<Rightarrow> string \<Rightarrow> string \<Rightarrow> string \<Rightarrow> error + ('f text_op list \<times> string)" where
  \<comment> \<open>One iteration of the loop over the rows: a fresh text layer, the layout, the
      drawing, and the name of the archive member.\<close>
  "render_row P image_height title_text pron_text def_text =
     (case draw_row P [] (layout_row P image_height title_text pron_text def_text)
             title_text pron_text def_text of
        Inl e \<Rightarrow> Inl e
      | Inr draw \<Rightarrow> Inr (draw, safe_name title_text @ ''.png''))"

section \<open>The wrapping operation in the words of the specification\<close>

fun greedy_fill :: "(string \<Rightarrow> real) \<Rightarrow> real \<Rightarrow> string \<Rightarrow> string list \<Rightarrow> string list" where
  \<comment> \<open>The current line is a string. The candidate is the current line, a space and the
      word, or the word alone when the current line is empty. A candidate that is not
      wider than the limit becomes the current line; otherwise the current line is
      committed when it is not empty and the word starts a new one.\<close>
  "greedy_fill width maxWidthPx current [] = (if current = [] then [] else [current])"
| "greedy_fill width maxWidthPx current (word # rest) =
     (let candidate = (if current = [] then word else current @ '' '' @ word)
      in if width candidate \<le> maxWidthPx then greedy_fill width maxWidthPx candidate rest
         else (if current \<noteq> [] then [current] else [])
              @ greedy_fill width maxWidthPx word rest)"

definition wrapText :: "(string \<Rightarrow> real) \<Rightarrow> real \<Rightarrow> string list \<Rightarrow> string list" where
  "wrapText width maxWidthPx words = greedy_fill width maxWidthPx [] words"

section \<open>Moving a drawing call\<close>

definition move_down :: "real \<Rightarrow> 'f text_op \<Rightarrow> 'f text_op" where
  \<comment> \<open>The same call to \<open>draw.text\<close> with its \<open>y\<close> coordinate increased by \<open>d\<close>.\<close>
  "move_down d op = (case op of ((x, y), rest) \<Rightarrow> ((x, y + d), rest))"

section \<open>Measuring a field and then drawing it\<close>

definition resolved :: "'f pil \<Rightarrow> string \<Rightarrow> string \<Rightarrow> int \<Rightarrow> string \<Rightarrow> real \<Rightarrow> int \<times> 'f" where
  \<comment> \<open>The values of \<open>(max_size, font)\<close> in \<open>draw_text_wrapped\<close> and
      \<open>calculate_text_height\<close> when the wrapping starts (lines 67 and 99), or at the
      early return for a text without words.\<close>
  "resolved P text font_file max_size variation max_width =
     (case split text of
        [] \<Rightarrow> (max_size, load_font P font_file max_size variation)
      | first_word # more_words \<Rightarrow>
          fit_font P font_file max_size variation max_width
            (max_by_len first_word more_words))"

definition resolved_font_ok :: "'f pil \<Rightarrow> string \<Rightarrow> string \<Rightarrow> int \<Rightarrow> string \<Rightarrow> real \<Rightarrow> bool" where
  \<comment> \<open>What is assumed of the imaging library at the resolved font of a field, and
      nowhere else. Its \<open>size\<close> attribute, when it has one, is the size it was loaded at;
      or the font file yields this same font whatever the size (the file does not load
      and the default font stands in). For a text with words, the advance of \<open>x\<close> is
      positive and 0.8 times it is at most \<open>max_width\<close>: then lines 62-64 of
      \<open>draw_text_wrapped\<close> do not raise.\<close>
  "resolved_font_ok P text font_file max_size variation max_width =
     (case resolved P text font_file max_size variation max_width of
        (size1, font) \<Rightarrow>
          (font_size P font = None \<or> font_size P font = Some size1 \<or>
           (\<forall>s. load_font P font_file s variation = font)) \<and>
          (split text \<noteq> [] \<longrightarrow>
             0 < textlength P font ''x'' \<and> textlength P font ''x'' * 0.8 \<le> max_width))"

definition field_line_height ::
  "'f pil \<Rightarrow> string \<Rightarrow> string \<Rightarrow> int \<Rightarrow> string \<Rightarrow> real \<Rightarrow> real \<Rightarrow> real" where
  \<comment> \<open>The value of \<open>line_height\<close> (lines 81 and 113) for a call with these arguments.\<close>
  "field_line_height P text font_file max_size variation max_width line_spacing =
     (case resolved P text font_file max_size variation max_width of
        (size1, font) \<Rightarrow> of_int (getattr_size P font size1) * line_spacing)"

definition block_ops ::
  "real \<Rightarrow> real \<Rightarrow> real \<Rightarrow> 'f \<Rightarrow> string \<Rightarrow> string list \<Rightarrow> 'f text_op list" where
  \<comment> \<open>The drawing calls of a block: line \<open>i\<close> (from 0) at \<open>y\<close> plus \<open>i\<close> line heights.\<close>
  "block_ops x y line_height font fill lines =
     map (\<lambda>(i, line). ((x, y + of_nat i * line_height), line, font, fill))
       (enumerate 0 lines)"

section \<open>Line heights in double precision\<close>

text \<open>
  Everywhere else a Python \<open>float\<close> is an exact real. This section writes out the
  rounding of the three float computations that decide where a block ends: the line
  height (lines 81 and 113), the measured height (line 114) and the repeated
  \<open>y += line_height\<close> (lines 82-84).
\<close>

definition round_half_even :: "real \<Rightarrow> int" where
  \<comment> \<open>The nearest integer; a tie goes to the even one.\<close>
  "round_half_even q =
     (let f = \<lfloor>q\<rfloor>; r = q - of_int f
      in if r < 1 / 2 then f else if 1 / 2 < r then f + 1
         else if even f then f else f + 1)"

definition double_round :: "real \<Rightarrow> real" where
  \<comment> \<open>The double nearest to \<open>x\<close>: 53 significant bits, round to nearest, ties to even.
      The exponent is not bounded; neither overflow nor subnormal numbers arise at the
      magnitudes of pixel coordinates.\<close>
  "double_round x =
     (if x = 0 then 0
      else (let u = 2 powr (of_int \<lfloor>log 2 \<bar>x\<bar>\<rfloor> - 52)
            in of_int (round_half_even (x / u)) * u))"

definition line_height_double :: "int \<Rightarrow> real \<Rightarrow> real" where
  \<comment> \<open>\<open>getattr(current_font, 'size', max_size) * line_spacing\<close>, for the integer size and
      a double \<open>line_spacing\<close>.\<close>
  "line_height_double sz line_spacing = double_round (of_int sz * line_spacing)"

definition block_height_double :: "nat \<Rightarrow> real \<Rightarrow> real" where
  \<comment> \<open>\<open>line_count * line_height\<close> (line 114)\<close>
  "block_height_double line_count line_height =
     double_round (of_nat line_count * line_height)"

fun y_after_lines_double :: "real \<Rightarrow> real \<Rightarrow> string list \<Rightarrow> real" where
  \<comment> \<open>The value of \<open>y\<close> after \<open>for line in final_lines: ...; y += line_height\<close>.\<close>
  "y_after_lines_double y line_height [] = y"
| "y_after_lines_double y line_height (line # lines) =
     y_after_lines_double (double_round (y + line_height)) line_height lines"

section \<open>A concrete environment\<close>

text \<open>
  An instance of the environment on which the definitions can be evaluated: every font
  file loads at every size and accepts every variation name, the font object records
  file, size and variation, and the advance of a glyph is proportional to the size
  (a narrow \<open>i\<close>, a wide \<open>W\<close>, every other glyph in between). The box of a text starts
  at the origin and is as wide as its advance.
\<close>

datatype demo_font = FreeTypeFont string int string | BitmapFont

definition glyph_units :: "char \<Rightarrow> nat" where
  "glyph_units c = (if c = CHR ''i'' then 2 else if c = CHR ''W'' then 10 else 5)"

fun demo_textlength :: "demo_font \<Rightarrow> string \<Rightarrow> real" where
  "demo_textlength (FreeTypeFont file sz v) text =
     of_int sz * of_nat (sum_list (map glyph_units text)) / 10"
| "demo_textlength BitmapFont text = 6 * of_nat (length text)"

fun demo_font_size :: "demo_font \<Rightarrow> int option" where
  "demo_font_size (FreeTypeFont file sz v) = Some sz"
| "demo_font_size BitmapFont = None"

fun demo_set_variation :: "demo_font \<Rightarrow> string \<Rightarrow> demo_font option" where
  "demo_set_variation (FreeTypeFont file sz v) name = Some (FreeTypeFont file sz name)"
| "demo_set_variation BitmapFont name = None"

definition demo_pil :: "demo_font pil" where
  "demo_pil =
     \<lparr>truetype = (\<lambda>file sz. Some (FreeTypeFont file sz [])),
      load_default = BitmapFont,
      has_set_variation_by_name = (\<lambda>font. True),
      set_variation_by_name = demo_set_variation,
      set_variation_by_axes = (\<lambda>font axes. None),
      font_size = demo_font_size,
      textbbox = (\<lambda>font text. (0, 0, demo_textlength font text, 0)),
      textlength = demo_textlength\<rparr>"

section \<open>The shrink loop: termination and result\<close>

lemma shrink_size_less: "10 < s \<Longrightarrow> shrink_size s < s"
  by (simp add: shrink_size_def)

lemma shrink_size_lower: "10 < s \<Longrightarrow> 9 \<le> shrink_size s"
  by (simp add: shrink_size_def)

lemma shrink_loop_exit:
  "\<not> shrink_guard P max_width longest_word
       (shrink_loop P font_file variation max_width longest_word st)"
proof (induction P font_file variation max_width longest_word st rule: shrink_loop.induct)
  case (1 P font_file variation max_width longest_word st)
  then show ?case
    by (cases "shrink_guard P max_width longest_word st") (simp_all add: shrink_loop.simps)
qed

lemma shrink_loop_font:
  "snd st = load_font P font_file (fst st) variation \<Longrightarrow>
   snd (shrink_loop P font_file variation max_width longest_word st) =
     load_font P font_file (fst (shrink_loop P font_file variation max_width longest_word st))
       variation"
proof (induction P font_file variation max_width longest_word st rule: shrink_loop.induct)
  case (1 P font_file variation max_width longest_word st)
  show ?case
  proof (cases "shrink_guard P max_width longest_word st")
    case True
    have "snd (shrink_body P font_file variation st) =
            load_font P font_file (fst (shrink_body P font_file variation st)) variation"
      by (simp add: shrink_body_def Let_def split: prod.splits)
    with True "1.IH" show ?thesis
      by (simp add: shrink_loop.simps)
  next
    case False
    with "1.prems" show ?thesis
      by (simp add: shrink_loop.simps)
  qed
qed

lemma shrink_loop_le:
  "fst (shrink_loop P font_file variation max_width longest_word st) \<le> fst st"
proof (induction P font_file variation max_width longest_word st rule: shrink_loop.induct)
  case (1 P font_file variation max_width longest_word st)
  show ?case
  proof (cases "shrink_guard P max_width longest_word st")
    case True
    then have "10 < fst st"
      by (simp add: shrink_guard_def split: prod.splits)
    then have "fst (shrink_body P font_file variation st) < fst st"
      by (cases st) (simp add: shrink_body_def Let_def shrink_size_less)
    with True "1.IH" show ?thesis
      by (simp add: shrink_loop.simps)
  next
    case False
    then show ?thesis
      by (simp add: shrink_loop.simps)
  qed
qed

lemma shrink_loop_steps:
  "\<exists>n. n \<le> nat (fst st) \<and>
       shrink_loop P font_file variation max_width longest_word st =
         (shrink_body P font_file variation ^^ n) st \<and>
       (\<forall>k<n. shrink_guard P max_width longest_word
                 ((shrink_body P font_file variation ^^ k) st))"
proof (induction P font_file variation max_width longest_word st rule: shrink_loop.induct)
  case (1 P font_file variation max_width longest_word st)
  show ?case
  proof (cases "shrink_guard P max_width longest_word st")
    case True
    let ?st = "shrink_body P font_file variation st"
    from True have big: "10 < fst st"
      by (simp add: shrink_guard_def split: prod.splits)
    then have less: "fst ?st < fst st"
      by (cases st) (simp add: shrink_body_def Let_def shrink_size_less)
    from "1.IH" [OF True] obtain n where n: "n \<le> nat (fst ?st)"
      "shrink_loop P font_file variation max_width longest_word ?st =
         (shrink_body P font_file variation ^^ n) ?st"
      "\<forall>k<n. shrink_guard P max_width longest_word
                 ((shrink_body P font_file variation ^^ k) ?st)"
      by blast
    have a: "Suc n \<le> nat (fst st)"
      using n(1) less big by linarith
    have b: "shrink_loop P font_file variation max_width longest_word st =
               (shrink_body P font_file variation ^^ Suc n) st"
      using True n(2) by (simp add: shrink_loop.simps funpow_swap1)
    have c: "\<forall>k<Suc n. shrink_guard P max_width longest_word
                 ((shrink_body P font_file variation ^^ k) st)"
    proof (intro allI impI)
      fix k assume "k < Suc n"
      show "shrink_guard P max_width longest_word
              ((shrink_body P font_file variation ^^ k) st)"
      proof (cases k)
        case 0
        with True show ?thesis by simp
      next
        case (Suc j)
        with \<open>k < Suc n\<close> n(3) show ?thesis
          by (simp add: funpow_swap1)
      qed
    qed
    from a b c show ?thesis by blast
  next
    case False
    then have "shrink_loop P font_file variation max_width longest_word st =
                 (shrink_body P font_file variation ^^ 0) st"
      by (simp add: shrink_loop.simps)
    then show ?thesis by blast
  qed
qed


lemma shrink_loop_size_iter:
  "\<exists>n. fst (shrink_loop P font_file variation max_width longest_word st) =
         (shrink_size ^^ n) (fst st)"
proof (induction P font_file variation max_width longest_word st rule: shrink_loop.induct)
  case (1 P font_file variation max_width longest_word st)
  show ?case
  proof (cases "shrink_guard P max_width longest_word st")
    case True
    from "1.IH" [OF True] obtain n where
      "fst (shrink_loop P font_file variation max_width longest_word
              (shrink_body P font_file variation st)) =
         (shrink_size ^^ n) (fst (shrink_body P font_file variation st))"
      by blast
    moreover have "fst (shrink_body P font_file variation st) = shrink_size (fst st)"
      by (cases st) (simp add: shrink_body_def Let_def)
    ultimately have
      "fst (shrink_loop P font_file variation max_width longest_word st) =
         (shrink_size ^^ Suc n) (fst st)"
      using True by (simp add: shrink_loop.simps funpow_swap1)
    then show ?thesis by blast
  next
    case False
    then have "fst (shrink_loop P font_file variation max_width longest_word st) =
                 (shrink_size ^^ 0) (fst st)"
      by (simp add: shrink_loop.simps)
    then show ?thesis by blast
  qed
qed

lemma max_by_len_first_longest:
  "(\<forall>u\<in>set pre0. length u < length best) \<Longrightarrow> (\<forall>u\<in>set mid. length u \<le> length best) \<Longrightarrow>
   \<exists>pre post. pre0 @ best # mid @ ws = pre @ max_by_len best ws # post \<and>
     (\<forall>u\<in>set pre. length u < length (max_by_len best ws)) \<and>
     (\<forall>u\<in>set post. length u \<le> length (max_by_len best ws))"
proof (induction ws arbitrary: best pre0 mid)
  case Nil
  then show ?case by auto
next
  case (Cons w ws)
  show ?case
  proof (cases "length best < length w")
    case True
    have "\<exists>pre post. (pre0 @ best # mid) @ w # [] @ ws = pre @ max_by_len w ws # post \<and>
       (\<forall>u\<in>set pre. length u < length (max_by_len w ws)) \<and>
       (\<forall>u\<in>set post. length u \<le> length (max_by_len w ws))"
      using Cons.prems True by (intro Cons.IH) auto
    with True show ?thesis by simp
  next
    case False
    have "\<exists>pre post. pre0 @ best # (mid @ [w]) @ ws = pre @ max_by_len best ws # post \<and>
       (\<forall>u\<in>set pre. length u < length (max_by_len best ws)) \<and>
       (\<forall>u\<in>set post. length u \<le> length (max_by_len best ws))"
      using Cons.prems False by (intro Cons.IH) auto
    with False show ?thesis by simp
  qed
qed

lemma max_by_len_decomp:
  "\<exists>pre post. first_word # more_words = pre @ max_by_len first_word more_words # post \<and>
     (\<forall>u\<in>set pre. length u < length (max_by_len first_word more_words)) \<and>
     (\<forall>u\<in>set post. length u \<le> length (max_by_len first_word more_words))"
  using max_by_len_first_longest [of "[]" first_word "[]" more_words] by simp

text \<open>
  Claim C8. The shrink loop terminates from every starting size. While the size is above
  10 the update \<open>int(max_size * 0.9)\<close> yields a strictly smaller size; the loop is the
  \<open>n\<close>-fold iteration of its body for some \<open>n\<close> not above the starting size, its guard
  holding before each of these iterations and failing after the last; the state it ends
  in has the word fitting or a size of at most 10.
\<close>

theorem shrink_loop_terminates:
  "(10 < max_size \<longrightarrow> shrink_size max_size < max_size) \<and>
   (\<exists>n. n \<le> nat max_size \<and>
        shrink_loop P font_file variation max_width longest_word (max_size, font) =
          (shrink_body P font_file variation ^^ n) (max_size, font) \<and>
        (\<forall>k<n. shrink_guard P max_width longest_word
                  ((shrink_body P font_file variation ^^ k) (max_size, font))) \<and>
        \<not> shrink_guard P max_width longest_word
            ((shrink_body P font_file variation ^^ n) (max_size, font))) \<and>
   (case shrink_loop P font_file variation max_width longest_word (max_size, font) of
      (size', font') \<Rightarrow>
        bbox_width (textbbox P font' longest_word) \<le> max_width \<or> size' \<le> 10)"
proof (intro conjI)
  show "10 < max_size \<longrightarrow> shrink_size max_size < max_size"
    by (simp add: shrink_size_less)
next
  from shrink_loop_steps [of "(max_size, font)" P font_file variation max_width longest_word]
  obtain n where n: "n \<le> nat max_size"
    "shrink_loop P font_file variation max_width longest_word (max_size, font) =
       (shrink_body P font_file variation ^^ n) (max_size, font)"
    "\<forall>k<n. shrink_guard P max_width longest_word
              ((shrink_body P font_file variation ^^ k) (max_size, font))"
    by auto
  from n(2) have "\<not> shrink_guard P max_width longest_word
            ((shrink_body P font_file variation ^^ n) (max_size, font))"
    using shrink_loop_exit [of P max_width longest_word font_file variation "(max_size, font)"]
    by simp
  with n show "\<exists>n. n \<le> nat max_size \<and>
        shrink_loop P font_file variation max_width longest_word (max_size, font) =
          (shrink_body P font_file variation ^^ n) (max_size, font) \<and>
        (\<forall>k<n. shrink_guard P max_width longest_word
                  ((shrink_body P font_file variation ^^ k) (max_size, font))) \<and>
        \<not> shrink_guard P max_width longest_word
            ((shrink_body P font_file variation ^^ n) (max_size, font))"
    by blast
next
  show "case shrink_loop P font_file variation max_width longest_word (max_size, font) of
      (size', font') \<Rightarrow>
        bbox_width (textbbox P font' longest_word) \<le> max_width \<or> size' \<le> 10"
    using shrink_loop_exit [of P max_width longest_word font_file variation "(max_size, font)"]
    by (auto simp: shrink_guard_def split: prod.splits)
qed

text \<open>The defining equations that evaluate the model on the concrete environment.\<close>

lemmas demo_eval =
  fit_font_def shrink_loop.simps shrink_guard_def shrink_body_def shrink_size_def
  load_font_def demo_pil_def bbox_width_def MAX_WIDTH_def glyph_units_def

theorem shrink_loop_terminates_witness:
  "(10::int) < 255 \<and> shrink_size 255 < 255 \<and>
   (\<exists>n. n \<le> nat 255 \<and>
        shrink_loop demo_pil ''Cabin-Variable.ttf'' ''Bold'' 1700 ''WWWWWWWW''
            (255, FreeTypeFont ''Cabin-Variable.ttf'' 255 ''Bold'') =
          (shrink_body demo_pil ''Cabin-Variable.ttf'' ''Bold'' ^^ n)
            (255, FreeTypeFont ''Cabin-Variable.ttf'' 255 ''Bold'')) \<and>
   shrink_loop demo_pil ''Cabin-Variable.ttf'' ''Bold'' 1700 ''WWWWWWWW''
       (255, FreeTypeFont ''Cabin-Variable.ttf'' 255 ''Bold'') =
     (206, FreeTypeFont ''Cabin-Variable.ttf'' 206 ''Bold'')"
proof -
  have "shrink_loop demo_pil ''Cabin-Variable.ttf'' ''Bold'' 1700 ''WWWWWWWW''
       (255, FreeTypeFont ''Cabin-Variable.ttf'' 255 ''Bold'') =
     (206, FreeTypeFont ''Cabin-Variable.ttf'' 206 ''Bold'')"
    by (simp add: demo_eval)
  moreover note shrink_loop_terminates [of 255 demo_pil "''Cabin-Variable.ttf''" "''Bold''" 1700
      "''WWWWWWWW''" "FreeTypeFont ''Cabin-Variable.ttf'' 255 ''Bold''"]
  ultimately show ?thesis
    by (simp add: shrink_size_def) blast
qed

section \<open>The font-size fitting step\<close>

lemma shrink_body_iter:
  "(shrink_body P font_file variation ^^ k) (s, load_font P font_file s variation) =
     ((shrink_size ^^ k) s, load_font P font_file ((shrink_size ^^ k) s) variation)"
  by (induction k) (simp_all add: shrink_body_def Let_def)

text \<open>
  Claim C1, as the code has it. The loop is driven by the first word of greatest length
  in characters (\<open>max(words, key=len)\<close>), not by the widest word. For that word the
  fitting step applies \<open>int(max_size * 0.9)\<close> some \<open>n\<close> times to the starting size, and
  before each of these steps the word's box in the font loaded at the current size is
  wider than \<open>max_width\<close> and the current size is above 10; so nothing shrinks when the
  word fits at the starting size or that size is at most 10. The size returned is never
  above the starting size, the font returned is the font loaded at that size, and at that
  size the word's box is not wider than \<open>max_width\<close>, or the size is at most 10.
\<close>

theorem fit_font_longest_word:
  assumes words: "split text = first_word # more_words"
    and fit: "fit_font P font_file max_size variation max_width
                (max_by_len first_word more_words) = (size', font')"
  shows "(\<exists>pre post. split text = pre @ max_by_len first_word more_words # post \<and>
            (\<forall>u\<in>set pre. length u < length (max_by_len first_word more_words)) \<and>
            (\<forall>u\<in>set post. length u \<le> length (max_by_len first_word more_words))) \<and>
         (\<exists>n. n \<le> nat max_size \<and> size' = (shrink_size ^^ n) max_size \<and>
            (\<forall>k<n. max_width <
                      bbox_width (textbbox P
                        (load_font P font_file ((shrink_size ^^ k) max_size) variation)
                        (max_by_len first_word more_words)) \<and>
                    10 < (shrink_size ^^ k) max_size)) \<and>
         (bbox_width (textbbox P (load_font P font_file max_size variation)
                        (max_by_len first_word more_words)) \<le> max_width
          \<or> max_size \<le> 10 \<longrightarrow> size' = max_size) \<and>
         size' \<le> max_size \<and>
         font' = load_font P font_file size' variation \<and>
         (bbox_width (textbbox P (load_font P font_file size' variation)
                        (max_by_len first_word more_words)) \<le> max_width
          \<or> size' \<le> 10)"
proof -
  let ?st = "(max_size, load_font P font_file max_size variation)"
  let ?lw = "max_by_len first_word more_words"
  from fit have loop: "shrink_loop P font_file variation max_width ?lw ?st = (size', font')"
    by (simp add: fit_font_def)
  have a: "\<exists>pre post. split text = pre @ ?lw # post \<and>
            (\<forall>u\<in>set pre. length u < length ?lw) \<and> (\<forall>u\<in>set post. length u \<le> length ?lw)"
    using max_by_len_decomp [of first_word more_words] words by simp
  from shrink_loop_steps [of ?st P font_file variation max_width ?lw]
  obtain n where n: "n \<le> nat max_size"
    "shrink_loop P font_file variation max_width ?lw ?st =
       (shrink_body P font_file variation ^^ n) ?st"
    "\<forall>k<n. shrink_guard P max_width ?lw ((shrink_body P font_file variation ^^ k) ?st)"
    by auto
  from n(2) loop have "size' = (shrink_size ^^ n) max_size"
    by (simp add: shrink_body_iter)
  moreover have "\<forall>k<n. max_width <
      bbox_width (textbbox P (load_font P font_file ((shrink_size ^^ k) max_size) variation)
        ?lw) \<and> 10 < (shrink_size ^^ k) max_size"
    using n(3) by (simp add: shrink_body_iter shrink_guard_def)
  ultimately have b: "\<exists>n. n \<le> nat max_size \<and> size' = (shrink_size ^^ n) max_size \<and>
      (\<forall>k<n. max_width <
          bbox_width (textbbox P (load_font P font_file ((shrink_size ^^ k) max_size) variation)
            ?lw) \<and> 10 < (shrink_size ^^ k) max_size)"
    using n(1) by blast
  have f: "bbox_width (textbbox P (load_font P font_file max_size variation) ?lw) \<le> max_width
      \<or> max_size \<le> 10 \<longrightarrow> size' = max_size"
  proof
    assume "bbox_width (textbbox P (load_font P font_file max_size variation) ?lw) \<le> max_width
      \<or> max_size \<le> 10"
    then have "\<not> shrink_guard P max_width ?lw ?st"
      by (auto simp: shrink_guard_def)
    then have "shrink_loop P font_file variation max_width ?lw ?st = ?st"
      by (simp add: shrink_loop.simps)
    with loop show "size' = max_size" by simp
  qed
  have c: "size' \<le> max_size"
    using shrink_loop_le [of P font_file variation max_width ?lw ?st] loop by simp
  have d: "font' = load_font P font_file size' variation"
    using shrink_loop_font [of ?st P font_file variation max_width ?lw] loop by simp
  have "\<not> shrink_guard P max_width ?lw (size', font')"
    using shrink_loop_exit [of P max_width ?lw font_file variation ?st] loop by simp
  with d have e: "bbox_width (textbbox P (load_font P font_file size' variation) ?lw) \<le> max_width
          \<or> size' \<le> 10"
    by (auto simp: shrink_guard_def)
  from a b f c d e show ?thesis by blast
qed

text \<open>The defining equations that evaluate the text primitives.\<close>

lemmas text_eval = split_def isspace_def

theorem fit_font_longest_word_witness:
  "split ''Hi WWWWWWWW'' = ''Hi'' # [''WWWWWWWW''] \<and>
   fit_font demo_pil ''Cabin-Variable.ttf'' 255 ''Bold'' 1700 (max_by_len ''Hi'' [''WWWWWWWW'']) =
     (206, FreeTypeFont ''Cabin-Variable.ttf'' 206 ''Bold'') \<and>
   shrink_size (shrink_size 255) = 206 \<and>
   (206::int) \<le> 255 \<and>
   FreeTypeFont ''Cabin-Variable.ttf'' 206 ''Bold'' =
     load_font demo_pil ''Cabin-Variable.ttf'' 206 ''Bold'' \<and>
   bbox_width (textbbox demo_pil (load_font demo_pil ''Cabin-Variable.ttf'' 206 ''Bold'')
                 (max_by_len ''Hi'' [''WWWWWWWW''])) \<le> 1700"
proof -
  have w: "split ''Hi WWWWWWWW'' = ''Hi'' # [''WWWWWWWW'']"
    by (simp add: text_eval)
  have f: "fit_font demo_pil ''Cabin-Variable.ttf'' 255 ''Bold'' 1700
             (max_by_len ''Hi'' [''WWWWWWWW'']) =
           (206, FreeTypeFont ''Cabin-Variable.ttf'' 206 ''Bold'')"
    by (simp add: demo_eval)
  from fit_font_longest_word [OF w f] w f show ?thesis
    by (simp add: shrink_size_def)
qed

text \<open>
  A text whose widest word is not its longest: seven wide glyphs against eight narrow
  ones. The longest word fits at size 255, so nothing shrinks, and the wide word stays
  wider than \<open>MAX_WIDTH\<close> at the returned size 255.
\<close>

theorem widest_word_counterexample:
  "split ''iiiiiiii WWWWWWW'' = [''iiiiiiii'', ''WWWWWWW''] \<and>
   bbox_width (textbbox demo_pil (load_font demo_pil (FONT_FILES normal) 255 ''Bold'')
                 ''WWWWWWW'') > MAX_WIDTH \<and>
   max_by_len ''iiiiiiii'' [''WWWWWWW''] = ''iiiiiiii'' \<and>
   fit_font demo_pil (FONT_FILES normal) 255 ''Bold'' MAX_WIDTH ''iiiiiiii'' =
     (255, load_font demo_pil (FONT_FILES normal) 255 ''Bold'') \<and>
   calculate_text_height demo_pil ''iiiiiiii WWWWWWW'' (FONT_FILES normal) 255 ''Bold''
     MAX_WIDTH True 1 = (510, load_font demo_pil (FONT_FILES normal) 255 ''Bold'', 2) \<and>
   \<not> (bbox_width (textbbox demo_pil (load_font demo_pil (FONT_FILES normal) 255 ''Bold'')
                     ''WWWWWWW'') \<le> MAX_WIDTH \<or> (255::int) \<le> 10)"
  by (simp add: demo_eval text_eval calculate_text_height_def wrap_lines_def getattr_size_def)

section \<open>Splitting and joining\<close>

lemma isspace_blank: "isspace (CHR '' '')"
  by (simp add: isspace_def)

lemma split_from_word:
  "\<forall>c\<in>set w. \<not> isspace c \<Longrightarrow> split_from cur (w @ rest) = split_from (cur @ w) rest"
  by (induction w arbitrary: cur) simp_all

lemma split_from_solid:
  "\<forall>c\<in>set cur. \<not> isspace c \<Longrightarrow> u \<in> set (split_from cur s) \<Longrightarrow>
   u \<noteq> [] \<and> (\<forall>c\<in>set u. \<not> isspace c)"
proof (induction s arbitrary: cur)
  case Nil
  then show ?case by (auto split: if_splits)
next
  case (Cons c cs)
  show ?case
  proof (cases "isspace c")
    case True
    have "\<forall>c\<in>set ([]::string). \<not> isspace c" by simp
    from Cons.IH [OF this] True Cons.prems show ?thesis
      by (auto split: if_splits)
  next
    case False
    with Cons.prems have "\<forall>c\<in>set (cur @ [c]). \<not> isspace c" by simp
    from Cons.IH [OF this] False Cons.prems show ?thesis
      by simp
  qed
qed

lemma split_solid: "u \<in> set (split text) \<Longrightarrow> u \<noteq> [] \<and> (\<forall>c\<in>set u. \<not> isspace c)"
  using split_from_solid [of "[]" u "text"] by (simp add: split_def)

lemma split_no_empty_word: "[] \<notin> set (split text)"
  using split_solid [of "[]" "text"] by blast

lemma split_join:
  "[] \<notin> set ws \<Longrightarrow> (\<forall>w\<in>set ws. \<forall>c\<in>set w. \<not> isspace c) \<Longrightarrow> split (join '' '' ws) = ws"
proof (induction ws rule: induct_list012)
  case 1
  then show ?case by (simp add: split_def)
next
  case (2 x)
  then have "split_from [] (x @ []) = split_from ([] @ x) []"
    by (intro split_from_word) simp
  with 2 show ?case by (simp add: split_def)
next
  case (3 x y zs)
  from "3.prems" have x: "x \<noteq> []" "\<forall>c\<in>set x. \<not> isspace c" by auto
  from "3.prems" have rest: "split (join '' '' (y # zs)) = y # zs"
    by (intro "3.IH") auto
  have "split_from [] (x @ CHR '' '' # join '' '' (y # zs)) =
          split_from ([] @ x) (CHR '' '' # join '' '' (y # zs))"
    using x(2) by (intro split_from_word)
  also have "\<dots> = x # split_from [] (join '' '' (y # zs))"
    using x(1) by (simp add: isspace_blank)
  finally show ?case using rest by (simp add: split_def)
qed


lemma join_append:
  "xs \<noteq> [] \<Longrightarrow> ys \<noteq> [] \<Longrightarrow> join sep (xs @ ys) = join sep xs @ sep @ join sep ys"
proof (induction xs rule: induct_list012)
  case 1
  then show ?case by simp
next
  case (2 x)
  then show ?case by (cases ys) simp_all
next
  case (3 x y zs)
  then show ?case by simp
qed

lemma join_snoc: "join sep (xs @ [w]) = (if xs = [] then w else join sep xs @ sep @ w)"
  by (simp add: join_append)

lemma join_eq_Nil: "[] \<notin> set xs \<Longrightarrow> join sep xs = [] \<longleftrightarrow> xs = []"
  by (induction xs rule: induct_list012) auto

lemma join_concat:
  "[] \<notin> set gs \<Longrightarrow> join sep (map (join sep) gs) = join sep (concat gs)"
proof (induction gs rule: induct_list012)
  case 1
  then show ?case by simp
next
  case (2 g)
  then show ?case by simp
next
  case (3 g h gs)
  then have "g \<noteq> []" "concat (h # gs) \<noteq> []" by auto
  then have "join sep (g @ concat (h # gs)) = join sep g @ sep @ join sep (concat (h # gs))"
    by (rule join_append)
  with 3 show ?case by simp
qed

section \<open>The wrapping loop\<close>

lemma wrap_loop_groups:
  "wrap_loop P font max_width final_lines current_line words = (final_lines', current_line') \<Longrightarrow>
   \<exists>gs. final_lines' = final_lines @ map (join '' '') gs \<and> [] \<notin> set gs \<and>
        current_line @ words = concat gs @ current_line'"
proof (induction words arbitrary: final_lines current_line)
  case Nil
  then have "final_lines' = final_lines @ map (join '' '') [] \<and> [] \<notin> set ([]::string list list)
      \<and> current_line @ [] = concat [] @ current_line'"
    by simp
  then show ?case by blast
next
  case (Cons word words)
  show ?case
  proof (cases "textlength P font (join '' '' (current_line @ [word])) \<le> max_width")
    case True
    with Cons.prems have
      "wrap_loop P font max_width final_lines (current_line @ [word]) words =
         (final_lines', current_line')"
      by (simp add: Let_def)
    from Cons.IH [OF this] show ?thesis by simp
  next
    case False
    show ?thesis
    proof (cases "current_line = []")
      case True
      with False Cons.prems have
        "wrap_loop P font max_width final_lines [word] words = (final_lines', current_line')"
        by (simp add: Let_def)
      from Cons.IH [OF this] True show ?thesis by simp
    next
      case nonempty: False
      with False Cons.prems have
        "wrap_loop P font max_width (final_lines @ [join '' '' current_line]) [word] words =
           (final_lines', current_line')"
        by (simp add: Let_def)
      from Cons.IH [OF this] obtain gs where gs:
        "final_lines' = (final_lines @ [join '' '' current_line]) @ map (join '' '') gs"
        "[] \<notin> set gs" "[word] @ words = concat gs @ current_line'"
        by blast
      then have "final_lines' = final_lines @ map (join '' '') (current_line # gs) \<and>
          [] \<notin> set (current_line # gs) \<and>
          current_line @ word # words = concat (current_line # gs) @ current_line'"
        using nonempty by auto
      then show ?thesis by blast
    qed
  qed
qed

lemma wrap_lines_groups:
  "\<exists>gs. wrap_lines P font max_width words = map (join '' '') gs \<and> [] \<notin> set gs \<and>
        concat gs = words"
proof -
  obtain fl cl where loop: "wrap_loop P font max_width [] [] words = (fl, cl)"
    by (cases "wrap_loop P font max_width [] [] words") blast
  from wrap_loop_groups [OF this] obtain gs where gs:
    "fl = map (join '' '') gs" "[] \<notin> set gs" "words = concat gs @ cl"
    by auto
  show ?thesis
  proof (cases "cl = []")
    case True
    with loop gs have "wrap_lines P font max_width words = map (join '' '') gs \<and> [] \<notin> set gs \<and>
        concat gs = words"
      by (simp add: wrap_lines_def)
    then show ?thesis by blast
  next
    case False
    with loop gs have "wrap_lines P font max_width words = map (join '' '') (gs @ [cl]) \<and>
        [] \<notin> set (gs @ [cl]) \<and> concat (gs @ [cl]) = words"
      by (simp add: wrap_lines_def)
    then show ?thesis by blast
  qed
qed

lemma wrap_loop_widths:
  "wrap_loop P font max_width final_lines current_line words = (final_lines', current_line') \<Longrightarrow>
   \<forall>l\<in>set final_lines. textlength P font l \<le> max_width \<or> l \<in> W \<Longrightarrow>
   current_line = [] \<or> textlength P font (join '' '' current_line) \<le> max_width
     \<or> join '' '' current_line \<in> W \<Longrightarrow>
   set words \<subseteq> W \<Longrightarrow>
   (\<forall>l\<in>set final_lines'. textlength P font l \<le> max_width \<or> l \<in> W) \<and>
   (current_line' = [] \<or> textlength P font (join '' '' current_line') \<le> max_width
     \<or> join '' '' current_line' \<in> W)"
proof (induction words arbitrary: final_lines current_line)
  case Nil
  then show ?case by simp
next
  case (Cons word words)
  from Cons.prems(4) have sub: "set words \<subseteq> W" and word: "word \<in> W" by auto
  show ?case
  proof (cases "textlength P font (join '' '' (current_line @ [word])) \<le> max_width")
    case True
    with Cons.prems(1) have
      "wrap_loop P font max_width final_lines (current_line @ [word]) words =
         (final_lines', current_line')"
      by (simp add: Let_def)
    from Cons.IH [OF this Cons.prems(2) _ sub] True show ?thesis by blast
  next
    case False
    let ?fl = "if current_line \<noteq> [] then final_lines @ [join '' '' current_line]
               else final_lines"
    from False Cons.prems(1) have
      "wrap_loop P font max_width ?fl [word] words = (final_lines', current_line')"
      by (simp add: Let_def)
    moreover have "\<forall>l\<in>set ?fl. textlength P font l \<le> max_width \<or> l \<in> W"
      using Cons.prems(2,3) by auto
    moreover have "[word] = [] \<or> textlength P font (join '' '' [word]) \<le> max_width
        \<or> join '' '' [word] \<in> W"
      using word by simp
    ultimately show ?thesis using sub by (rule Cons.IH)
  qed
qed

lemma wrap_lines_widths:
  "l \<in> set (wrap_lines P font max_width words) \<Longrightarrow>
   textlength P font l \<le> max_width \<or> l \<in> set words"
proof -
  assume l: "l \<in> set (wrap_lines P font max_width words)"
  obtain fl cl where loop: "wrap_loop P font max_width [] [] words = (fl, cl)"
    by (cases "wrap_loop P font max_width [] [] words") blast
  from wrap_loop_widths [OF this, of "set words"]
  have "(\<forall>l\<in>set fl. textlength P font l \<le> max_width \<or> l \<in> set words) \<and>
    (cl = [] \<or> textlength P font (join '' '' cl) \<le> max_width \<or> join '' '' cl \<in> set words)"
    by simp
  with l loop show ?thesis
    by (auto simp: wrap_lines_def split: if_splits)
qed

lemma wrap_loop_greedy_fill:
  "[] \<notin> set current_line \<Longrightarrow> [] \<notin> set words \<Longrightarrow>
   (case wrap_loop P font max_width final_lines current_line words of
      (final_lines', current_line') \<Rightarrow>
        if current_line' \<noteq> [] then final_lines' @ [join '' '' current_line']
        else final_lines') =
   final_lines @ greedy_fill (textlength P font) max_width (join '' '' current_line) words"
proof (induction words arbitrary: final_lines current_line)
  case Nil
  then show ?case by (simp add: join_eq_Nil)
next
  case (Cons word words)
  from Cons.prems have ne: "word \<noteq> []" "[] \<notin> set words" by auto
  have cand: "(if join '' '' current_line = [] then word
               else join '' '' current_line @ '' '' @ word) = join '' '' (current_line @ [word])"
    using Cons.prems(1) by (simp add: join_snoc join_eq_Nil)
  show ?case
  proof (cases "textlength P font (join '' '' (current_line @ [word])) \<le> max_width")
    case True
    have "[] \<notin> set (current_line @ [word])" using Cons.prems(1) ne by simp
    from Cons.IH [OF this ne(2), of final_lines] True cand show ?thesis
      by (simp add: Let_def)
  next
    case False
    have "[] \<notin> set [word]" using ne by simp
    from Cons.IH [OF this ne(2)] False cand Cons.prems(1) show ?thesis
      by (simp add: Let_def join_eq_Nil)
  qed
qed

lemma wrap_lines_greedy_fill:
  "[] \<notin> set words \<Longrightarrow>
   wrap_lines P font max_width words = wrapText (textlength P font) max_width words"
  using wrap_loop_greedy_fill [of "[]" words P font max_width "[]"]
  by (simp add: wrap_lines_def wrapText_def)


text \<open>
  Claim C2. For every text, font and width limit, each line the wrapping loop produces is
  not wider than \<open>max_width\<close> in that font (in particular in the font the fitting step
  resolved), unless the line is a single word of the text that is itself wider than
  \<open>max_width\<close>. The loop computes the greedy line fill of the specification. The line
  count that \<open>calculate_text_height\<close> returns is the number of these lines in the font it
  returns.
\<close>

theorem wrap_lines_fit:
  "(\<forall>line\<in>set (wrap_lines P font max_width (split text)).
      textlength P font line \<le> max_width \<or>
      (line \<in> set (split text) \<and> max_width < textlength P font line)) \<and>
   wrap_lines P font max_width (split text) =
     wrapText (textlength P font) max_width (split text) \<and>
   (case calculate_text_height P text font_file max_size variation max_width True line_spacing of
      (height, resolved_font, line_count) \<Rightarrow>
        line_count = length (wrap_lines P resolved_font max_width (split text)))"
proof (intro conjI ballI)
  fix line
  assume "line \<in> set (wrap_lines P font max_width (split text))"
  from wrap_lines_widths [OF this]
  show "textlength P font line \<le> max_width \<or>
      (line \<in> set (split text) \<and> max_width < textlength P font line)"
    by auto
next
  show "wrap_lines P font max_width (split text) =
     wrapText (textlength P font) max_width (split text)"
    by (rule wrap_lines_greedy_fill) (rule split_no_empty_word)
next
  show "case calculate_text_height P text font_file max_size variation max_width True
             line_spacing of
      (height, resolved_font, line_count) \<Rightarrow>
        line_count = length (wrap_lines P resolved_font max_width (split text))"
    by (simp add: calculate_text_height_def Let_def wrap_lines_def split: list.splits prod.splits)
qed

theorem wrap_lines_fit_witness:
  "wrap_lines demo_pil (FreeTypeFont ''Cabin-Variable.ttf'' 255 ''Bold'') 1700
     (split ''Hello World WWWWWWW'') = [''Hello World'', ''WWWWWWW''] \<and>
   textlength demo_pil (FreeTypeFont ''Cabin-Variable.ttf'' 255 ''Bold'') ''Hello World'' \<le> 1700 \<and>
   ''WWWWWWW'' \<in> set (split ''Hello World WWWWWWW'') \<and>
   1700 < textlength demo_pil (FreeTypeFont ''Cabin-Variable.ttf'' 255 ''Bold'') ''WWWWWWW'' \<and>
   wrapText (textlength demo_pil (FreeTypeFont ''Cabin-Variable.ttf'' 255 ''Bold'')) 1700
     (split ''Hello World WWWWWWW'') = [''Hello World'', ''WWWWWWW'']"
proof -
  have lines: "wrap_lines demo_pil (FreeTypeFont ''Cabin-Variable.ttf'' 255 ''Bold'') 1700
     (split ''Hello World WWWWWWW'') = [''Hello World'', ''WWWWWWW'']"
    by (simp add: wrap_lines_def text_eval demo_pil_def glyph_units_def)
  have wide: "1700 < textlength demo_pil (FreeTypeFont ''Cabin-Variable.ttf'' 255 ''Bold'')
      ''WWWWWWW''"
    by (simp add: demo_pil_def glyph_units_def)
  have narrow: "textlength demo_pil (FreeTypeFont ''Cabin-Variable.ttf'' 255 ''Bold'')
      ''Hello World'' \<le> 1700"
    by (simp add: demo_pil_def glyph_units_def)
  have word: "''WWWWWWW'' \<in> set (split ''Hello World WWWWWWW'')"
    by (simp add: text_eval)
  from wrap_lines_fit [of demo_pil "FreeTypeFont ''Cabin-Variable.ttf'' 255 ''Bold''" 1700
      "''Hello World WWWWWWW''" "''Cabin-Variable.ttf''" 255 "''Bold''" 1]
  have "wrap_lines demo_pil (FreeTypeFont ''Cabin-Variable.ttf'' 255 ''Bold'') 1700
          (split ''Hello World WWWWWWW'') =
        wrapText (textlength demo_pil (FreeTypeFont ''Cabin-Variable.ttf'' 255 ''Bold'')) 1700
          (split ''Hello World WWWWWWW'')"
    by (rule conjunct1 [OF conjunct2])
  with lines wide narrow word show ?thesis by simp
qed

text \<open>
  Claim C9. For every text, the wrapping loop emits no empty line, and its lines joined
  by single spaces split into exactly the words of the text, in their order; so does the
  concatenation of the lines' own words.
\<close>

theorem wrap_lines_words:
  "[] \<notin> set (wrap_lines P font max_width (split text)) \<and>
   split (join '' '' (wrap_lines P font max_width (split text))) = split text \<and>
   concat (map split (wrap_lines P font max_width (split text))) = split text"
proof -
  obtain gs where gs: "wrap_lines P font max_width (split text) = map (join '' '') gs"
    "[] \<notin> set gs" "concat gs = split text"
    using wrap_lines_groups [of P font max_width "split text"] by blast
  have solid: "w \<noteq> [] \<and> (\<forall>c\<in>set w. \<not> isspace c)" if "g \<in> set gs" "w \<in> set g" for g w
  proof -
    from that gs(3) have "w \<in> set (split text)" by (metis UN_I set_concat)
    then show ?thesis by (rule split_solid)
  qed
  have group: "split (join '' '' g) = g" if "g \<in> set gs" for g
    using solid [OF that] by (intro split_join) auto
  have a: "[] \<notin> set (wrap_lines P font max_width (split text))"
  proof
    assume "[] \<in> set (wrap_lines P font max_width (split text))"
    with gs(1) obtain g where g: "g \<in> set gs" "join '' '' g = []" by auto
    from solid [OF g(1)] have "[] \<notin> set g" by blast
    with g(2) have "g = []" by (simp add: join_eq_Nil)
    with g(1) gs(2) show False by simp
  qed
  have "join '' '' (wrap_lines P font max_width (split text)) = join '' '' (split text)"
    using gs by (simp add: join_concat)
  moreover have "split (join '' '' (split text)) = split text"
    using split_solid [of _ "text"] by (intro split_join) auto
  ultimately have b: "split (join '' '' (wrap_lines P font max_width (split text))) = split text"
    by simp
  have "map split (map (join '' '') gs) = gs"
    using group by (simp add: map_idI)
  with gs have c: "concat (map split (wrap_lines P font max_width (split text))) = split text"
    by simp
  from a b c show ?thesis by blast
qed

theorem wrap_lines_words_witness:
  "wrap_lines demo_pil (FreeTypeFont ''Cabin-Variable.ttf'' 255 ''Bold'') 1700
     (split ''  Hello   World WWWWWWW '') = [''Hello World'', ''WWWWWWW''] \<and>
   split (join '' '' [''Hello World'', ''WWWWWWW'']) = [''Hello'', ''World'', ''WWWWWWW''] \<and>
   split ''  Hello   World WWWWWWW '' = [''Hello'', ''World'', ''WWWWWWW'']"
proof -
  have lines: "wrap_lines demo_pil (FreeTypeFont ''Cabin-Variable.ttf'' 255 ''Bold'') 1700
     (split ''  Hello   World WWWWWWW '') = [''Hello World'', ''WWWWWWW'']"
    by (simp add: wrap_lines_def text_eval demo_pil_def glyph_units_def)
  have words: "split ''  Hello   World WWWWWWW '' = [''Hello'', ''World'', ''WWWWWWW'']"
    by (simp add: text_eval)
  from wrap_lines_words [of demo_pil "FreeTypeFont ''Cabin-Variable.ttf'' 255 ''Bold''" 1700
      "''  Hello   World WWWWWWW ''"] lines words
  show ?thesis by simp
qed

section \<open>File names\<close>

lemma isalnum_not_isspace: "isalnum c \<Longrightarrow> \<not> isspace c"
  unfolding isalnum_def isspace_def Let_def by presburger

lemma kept_space_is_blank:
  "isspace c \<Longrightarrow> isalnum c \<or> c \<in> set [CHR '' '', CHR ''-'', CHR ''_''] \<Longrightarrow> c = CHR '' ''"
  using isalnum_not_isspace [of c] by (auto simp: isspace_def)

lemma dropWhile_strip:
  "dropWhile isspace xs = strip xs @ rev (takeWhile isspace (rev (dropWhile isspace xs)))"
proof -
  let ?ys = "dropWhile isspace xs"
  have "rev (takeWhile isspace (rev ?ys) @ dropWhile isspace (rev ?ys)) = rev (rev ?ys)"
    by (simp only: takeWhile_dropWhile_id)
  then have "rev (dropWhile isspace (rev ?ys)) @ rev (takeWhile isspace (rev ?ys)) = ?ys"
    by (simp only: rev_append rev_rev_ident)
  then show ?thesis
    by (simp only: strip_def)
qed

lemma strip_decomp:
  "xs = takeWhile isspace xs @ strip xs @ rev (takeWhile isspace (rev (dropWhile isspace xs)))"
proof -
  have "xs = takeWhile isspace xs @ dropWhile isspace xs"
    by (simp only: takeWhile_dropWhile_id)
  also have "dropWhile isspace xs =
      strip xs @ rev (takeWhile isspace (rev (dropWhile isspace xs)))"
    by (rule dropWhile_strip)
  finally show ?thesis .
qed

lemma strip_subset: "c \<in> set (strip xs) \<Longrightarrow> c \<in> set xs"
proof -
  assume "c \<in> set (strip xs)"
  then have "c \<in> set (dropWhile isspace (rev (dropWhile isspace xs)))"
    by (simp only: strip_def set_rev)
  then have "c \<in> set (rev (dropWhile isspace xs))" by (rule set_dropWhileD)
  then have "c \<in> set (dropWhile isspace xs)" by (simp only: set_rev)
  then show ?thesis by (rule set_dropWhileD)
qed

lemma strip_ends:
  assumes "strip xs \<noteq> []"
  shows "\<not> isspace (hd (strip xs)) \<and> \<not> isspace (last (strip xs))"
proof -
  let ?ys = "dropWhile isspace xs"
  let ?zs = "dropWhile isspace (rev ?ys)"
  from assms have zs: "?zs \<noteq> []" by (simp only: strip_def rev_is_Nil_conv not_False_eq_True)
  then have "\<not> isspace (hd ?zs)" by (rule hd_dropWhile)
  moreover have "last (strip xs) = hd ?zs"
    using zs by (simp only: strip_def last_rev)
  ultimately have l: "\<not> isspace (last (strip xs))" by simp
  have ys: "?ys \<noteq> []"
  proof
    assume "?ys = []"
    then have "?zs = []" by (simp only: rev.simps dropWhile.simps)
    with zs show False by simp
  qed
  then have h: "\<not> isspace (hd ?ys)" by (rule hd_dropWhile)
  have "hd ?ys = hd (strip xs @ rev (takeWhile isspace (rev ?ys)))"
    by (rule arg_cong [OF dropWhile_strip])
  also have "\<dots> = hd (strip xs)"
    using assms by (rule hd_append2)
  finally have "hd ?ys = hd (strip xs)" .
  with h l show ?thesis by simp
qed

lemma all_same_replicate: "\<forall>c\<in>set xs. c = x \<Longrightarrow> \<exists>n. xs = replicate n x"
  using replicate_length_same [of xs x] by (intro exI [of _ "length xs"]) simp

lemma strip_blank_ends:
  assumes "\<forall>c\<in>set xs. isspace c \<longrightarrow> c = b"
  shows "\<exists>m n. xs = replicate m b @ strip xs @ replicate n b"
proof -
  have "\<forall>c\<in>set (takeWhile isspace xs). c = b"
  proof
    fix c assume c: "c \<in> set (takeWhile isspace xs)"
    then have "isspace c" by (rule set_takeWhileD [THEN conjunct2])
    moreover from c have "c \<in> set xs" by (rule set_takeWhileD [THEN conjunct1])
    ultimately show "c = b" using assms by blast
  qed
  then have "\<exists>m. takeWhile isspace xs = replicate m b"
    by (rule all_same_replicate)
  then obtain m where m: "takeWhile isspace xs = replicate m b" ..
  have "\<forall>c\<in>set (rev (takeWhile isspace (rev (dropWhile isspace xs)))). c = b"
  proof
    fix c assume "c \<in> set (rev (takeWhile isspace (rev (dropWhile isspace xs))))"
    then have c: "c \<in> set (takeWhile isspace (rev (dropWhile isspace xs)))"
      by (simp only: set_rev)
    then have "isspace c" by (rule set_takeWhileD [THEN conjunct2])
    moreover from c have "c \<in> set (rev (dropWhile isspace xs))"
      by (rule set_takeWhileD [THEN conjunct1])
    then have "c \<in> set (dropWhile isspace xs)" by (simp only: set_rev)
    then have "c \<in> set xs" by (rule set_dropWhileD)
    ultimately show "c = b" using assms by blast
  qed
  then have "\<exists>n. rev (takeWhile isspace (rev (dropWhile isspace xs))) = replicate n b"
    by (rule all_same_replicate)
  then obtain n where n: "rev (takeWhile isspace (rev (dropWhile isspace xs))) = replicate n b" ..
  have "xs = replicate m b @ strip xs @ replicate n b"
    by (rule strip_decomp [of xs, unfolded m n])
  then show ?thesis by blast
qed

text \<open>
  Claim C6, as the code has it. The file name keeps exactly the characters that are
  alphanumeric for \<open>str.isalnum\<close>, spaces, hyphens and underscores, in their order, and
  then loses only leading and trailing spaces, so that it neither starts nor ends with
  whitespace. Letters beyond ASCII are alphanumeric: in the title of the specification's
  example the letter U+00E9 is kept, and the name is that title without its slash, colon
  and hash sign.
\<close>

theorem safe_name_kept:
  "(\<forall>c\<in>set (safe_name title_text).
      isalnum c \<or> c = CHR '' '' \<or> c = CHR ''-'' \<or> c = CHR ''_'') \<and>
   (\<exists>a b. filter (\<lambda>c. isalnum c \<or> c \<in> set [CHR '' '', CHR ''-'', CHR ''_'']) title_text =
            replicate a (CHR '' '') @ safe_name title_text @ replicate b (CHR '' '')) \<and>
   (safe_name title_text \<noteq> [] \<longrightarrow>
      \<not> isspace (hd (safe_name title_text)) \<and> \<not> isspace (last (safe_name title_text))) \<and>
   safe_name (''Caf'' @ [CHR 0xE9] @ ''/Bar: #1'') = ''Caf'' @ [CHR 0xE9] @ ''Bar 1''"
proof -
  define xs where "xs = filter (\<lambda>c. isalnum c \<or> c \<in> set [CHR '' '', CHR ''-'', CHR ''_''])
    title_text"
  have name: "safe_name title_text = strip xs"
    by (simp only: safe_name_def xs_def)
  have kept: "isalnum c \<or> c \<in> set [CHR '' '', CHR ''-'', CHR ''_'']" if "c \<in> set xs" for c
    using that by (simp add: xs_def)
  have a: "\<forall>c\<in>set (safe_name title_text).
      isalnum c \<or> c = CHR '' '' \<or> c = CHR ''-'' \<or> c = CHR ''_''"
  proof
    fix c assume "c \<in> set (safe_name title_text)"
    then have "c \<in> set xs" unfolding name by (rule strip_subset)
    from kept [OF this] show "isalnum c \<or> c = CHR '' '' \<or> c = CHR ''-'' \<or> c = CHR ''_''"
      by simp
  qed
  have "\<forall>c\<in>set xs. isspace c \<longrightarrow> c = CHR '' ''"
    using kept kept_space_is_blank by blast
  from strip_blank_ends [OF this]
  have b: "\<exists>a b. filter (\<lambda>c. isalnum c \<or> c \<in> set [CHR '' '', CHR ''-'', CHR ''_''])
      title_text = replicate a (CHR '' '') @ safe_name title_text @ replicate b (CHR '' '')"
    unfolding name xs_def .
  have c: "safe_name title_text \<noteq> [] \<longrightarrow>
      \<not> isspace (hd (safe_name title_text)) \<and> \<not> isspace (last (safe_name title_text))"
    unfolding name using strip_ends [of xs] by blast
  have d: "safe_name (''Caf'' @ [CHR 0xE9] @ ''/Bar: #1'') = ''Caf'' @ [CHR 0xE9] @ ''Bar 1''"
    by (simp add: safe_name_def strip_def isalnum_def isspace_def)
  from a b c d show ?thesis by blast
qed

theorem safe_name_kept_witness:
  "safe_name '' a-b_c: #1/2  '' = ''a-b_c 12'' \<and>
   filter (\<lambda>c. isalnum c \<or> c \<in> set [CHR '' '', CHR ''-'', CHR ''_'']) '' a-b_c: #1/2  '' =
     replicate 1 (CHR '' '') @ ''a-b_c 12'' @ replicate 2 (CHR '' '') \<and>
   \<not> isspace (hd (safe_name '' a-b_c: #1/2  '')) \<and>
   \<not> isspace (last (safe_name '' a-b_c: #1/2  ''))"
proof -
  have ev: "safe_name '' a-b_c: #1/2  '' = ''a-b_c 12''"
    by (simp add: safe_name_def strip_def isalnum_def isspace_def)
  have fl: "filter (\<lambda>c. isalnum c \<or> c \<in> set [CHR '' '', CHR ''-'', CHR ''_''])
      '' a-b_c: #1/2  '' = replicate 1 (CHR '' '') @ ''a-b_c 12'' @ replicate 2 (CHR '' '')"
    by (simp add: isalnum_def numeral_2_eq_2)
  from safe_name_kept [of "'' a-b_c: #1/2  ''"] ev
  have "\<not> isspace (hd (safe_name '' a-b_c: #1/2  '')) \<and>
        \<not> isspace (last (safe_name '' a-b_c: #1/2  ''))"
    by simp
  with ev fl show ?thesis by simp
qed

text \<open>The example of the specification: the accented letter is not removed.\<close>

theorem safe_name_example_counterexample:
  "safe_name (''Caf'' @ [CHR 0xE9] @ ''/Bar: #1'') \<noteq> ''CafBar 1''"
  by (simp add: safe_name_def strip_def isalnum_def isspace_def)

section \<open>Empty fields\<close>

lemma calculate_text_height_empty:
  "calculate_text_height P [] font_file max_size variation max_width True line_spacing =
     (0, load_font P font_file max_size variation, 0)"
  by (simp add: calculate_text_height_def split_def)

text \<open>
  Claim C7. An empty text has no words, so it wraps to no line, is measured with height 0
  and line count 0 at every style, and drawing it leaves the canvas as it was. An empty
  field therefore adds nothing to the total height beyond the two spacing gaps.
\<close>

theorem empty_text_contributes_nothing:
  "wrap_lines P font max_width (split []) = [] \<and>
   calculate_text_height P [] font_file max_size variation max_width True line_spacing =
     (0, load_font P font_file max_size variation, 0) \<and>
   draw_text_wrapped P draw [] pos max_width font_file max_size variation fill line_spacing =
     Inr draw \<and>
   row_total_height (layout_row P image_height [] pron_text def_text) =
     SPACING + row_h_pron (layout_row P image_height [] pron_text def_text) + SPACING
     + row_h_def (layout_row P image_height [] pron_text def_text) \<and>
   row_total_height (layout_row P image_height title_text [] def_text) =
     row_h_title (layout_row P image_height title_text [] def_text) + SPACING + SPACING
     + row_h_def (layout_row P image_height title_text [] def_text) \<and>
   row_total_height (layout_row P image_height title_text pron_text []) =
     row_h_title (layout_row P image_height title_text pron_text []) + SPACING
     + row_h_pron (layout_row P image_height title_text pron_text []) + SPACING \<and>
   row_total_height (layout_row P image_height [] [] []) = SPACING + SPACING"
proof -
  have t: "measure_title P [] = (255, 0, load_font P (FONT_FILES normal) 255 ''Bold'', 0)"
    by (simp add: measure_title_def calculate_text_height_empty)
  have d: "measure_definition P [] = (157, 0, load_font P (FONT_FILES normal) 157 ''Medium'', 0)"
    by (simp add: measure_definition_def calculate_text_height_empty)
  have p: "measure_pronunciation P [] = (0, load_font P (FONT_FILES italic) 116 ''Italic'', 0)"
    by (simp add: measure_pronunciation_def calculate_text_height_empty)
  have 1: "wrap_lines P font max_width (split []) = []"
    by (simp add: wrap_lines_def split_def)
  have 2: "draw_text_wrapped P draw [] pos max_width font_file max_size variation fill
             line_spacing = Inr draw"
    by (simp add: draw_text_wrapped_def split_def)
  have 3: "row_total_height (layout_row P image_height [] pron_text def_text) =
     SPACING + row_h_pron (layout_row P image_height [] pron_text def_text) + SPACING
     + row_h_def (layout_row P image_height [] pron_text def_text)"
    by (simp add: layout_row_def t Let_def split: prod.splits)
  have 4: "row_total_height (layout_row P image_height title_text [] def_text) =
     row_h_title (layout_row P image_height title_text [] def_text) + SPACING + SPACING
     + row_h_def (layout_row P image_height title_text [] def_text)"
    by (simp add: layout_row_def p Let_def split: prod.splits)
  have 5: "row_total_height (layout_row P image_height title_text pron_text []) =
     row_h_title (layout_row P image_height title_text pron_text []) + SPACING
     + row_h_pron (layout_row P image_height title_text pron_text []) + SPACING"
    by (simp add: layout_row_def d Let_def split: prod.splits)
  have 6: "row_total_height (layout_row P image_height [] [] []) = SPACING + SPACING"
    by (simp add: layout_row_def t d p Let_def)
  from 1 calculate_text_height_empty 2 3 4 5 6 show ?thesis by blast
qed

theorem empty_text_contributes_nothing_witness:
  "calculate_text_height demo_pil [] (FONT_FILES normal) 255 ''Bold'' MAX_WIDTH True 1 =
     (0, FreeTypeFont ''Cabin-Variable.ttf'' 255 ''Bold'', 0) \<and>
   draw_text_wrapped demo_pil [] [] (2100, 900) MAX_WIDTH (FONT_FILES normal) 255 ''Bold''
     ''black'' 1 = Inr [] \<and>
   row_total_height (layout_row demo_pil 2000 [] [] []) = 200"
proof -
  have font: "load_font demo_pil (FONT_FILES normal) 255 ''Bold'' =
      FreeTypeFont ''Cabin-Variable.ttf'' 255 ''Bold''"
    by (simp add: load_font_def demo_pil_def)
  from empty_text_contributes_nothing [where P = demo_pil and max_width = MAX_WIDTH
      and font = BitmapFont
      and font_file = "FONT_FILES normal" and max_size = 255 and variation = "''Bold''"
      and line_spacing = 1 and draw = "[]" and pos = "(2100, 900)" and fill = "''black''"
      and image_height = 2000 and pron_text = "[]" and def_text = "[]" and title_text = "[]"]
    font
  show ?thesis by (simp add: SPACING_def)
qed

section \<open>Measuring a field\<close>

lemma shrink_loop_noop:
  "\<not> shrink_guard P max_width longest_word st \<Longrightarrow>
   shrink_loop P font_file variation max_width longest_word st = st"
  by (simp add: shrink_loop.simps)

lemma fit_font_facts:
  assumes "fit_font P font_file max_size variation max_width longest_word = (size', font')"
  shows "font' = load_font P font_file size' variation"
    and "size' \<le> max_size"
    and "bbox_width (textbbox P (load_font P font_file max_size variation) longest_word)
           \<le> max_width \<Longrightarrow> size' = max_size"
    and "\<not> shrink_guard P max_width longest_word (size', font')"
proof -
  let ?st = "(max_size, load_font P font_file max_size variation)"
  from assms have loop:
    "shrink_loop P font_file variation max_width longest_word ?st = (size', font')"
    by (simp add: fit_font_def)
  show "font' = load_font P font_file size' variation"
    using shrink_loop_font [of ?st P font_file variation max_width longest_word] loop by simp
  show "size' \<le> max_size"
    using shrink_loop_le [of P font_file variation max_width longest_word ?st] loop by simp
  show "\<not> shrink_guard P max_width longest_word (size', font')"
    using shrink_loop_exit [of P max_width longest_word font_file variation ?st] loop by simp
  show "size' = max_size"
    if "bbox_width (textbbox P (load_font P font_file max_size variation) longest_word)
          \<le> max_width"
  proof -
    from that have "\<not> shrink_guard P max_width longest_word ?st"
      by (simp add: shrink_guard_def)
    from shrink_loop_noop [OF this, of font_file variation] loop show ?thesis by simp
  qed
qed

lemma calculate_text_height_words:
  assumes "split text = first_word # more_words"
    and "fit_font P font_file max_size variation max_width
           (max_by_len first_word more_words) = (size', font')"
  shows "calculate_text_height P text font_file max_size variation max_width True line_spacing =
    (of_nat (length (wrap_lines P font' max_width (split text)))
       * (of_int (getattr_size P font' size') * line_spacing),
     font', length (wrap_lines P font' max_width (split text)))"
  using assms by (simp add: calculate_text_height_def Let_def)

lemma calculate_text_height_no_lines:
  assumes "calculate_text_height P text font_file max_size variation max_width True line_spacing
             = (h, f, n)"
    and "0 < n"
  shows "\<exists>first_word more_words. split text = first_word # more_words"
proof (cases "split text")
  case Nil
  with assms show ?thesis by (simp add: calculate_text_height_def)
next
  case (Cons w ws)
  then show ?thesis by blast
qed

lemma layout_row_title:
  "measure_title P title_text = (sz, h, f, n) \<Longrightarrow>
   row_title_size (layout_row P image_height title_text pron_text def_text) = sz \<and>
   row_h_title (layout_row P image_height title_text pron_text def_text) = h \<and>
   row_f_title (layout_row P image_height title_text pron_text def_text) = f \<and>
   row_title_lines (layout_row P image_height title_text pron_text def_text) = n"
  by (simp add: layout_row_def Let_def split: prod.splits)

lemma layout_row_definition:
  "measure_definition P def_text = (sz, h, f, n) \<Longrightarrow>
   row_def_size (layout_row P image_height title_text pron_text def_text) = sz \<and>
   row_h_def (layout_row P image_height title_text pron_text def_text) = h \<and>
   row_f_def (layout_row P image_height title_text pron_text def_text) = f \<and>
   row_line_count (layout_row P image_height title_text pron_text def_text) = n"
  by (simp add: layout_row_def Let_def split: prod.splits)

lemma layout_row_pronunciation:
  "measure_pronunciation P pron_text = (h, f, n) \<Longrightarrow>
   row_h_pron (layout_row P image_height title_text pron_text def_text) = h \<and>
   row_f_pron (layout_row P image_height title_text pron_text def_text) = f"
  by (simp add: layout_row_def Let_def split: prod.splits)

text \<open>
  Claim C4, as the code has it. When the first measurement of the title, started at size
  255, counts more than 3 lines, the title is measured once more, started at
  \<open>255 - 20 = 235\<close>, and that second result is the one laid out and drawn, whatever its line
  count. The second measurement runs the word-width loop again: its font is the one
  loaded at the size that loop returns, which is at most 235 and is 235 when the longest
  word is not wider than \<open>MAX_WIDTH\<close> at 235; the lines are wrapped in that font. With at
  most 3 lines the first measurement is kept.
\<close>

theorem title_retry:
  assumes first: "calculate_text_height P title_text (FONT_FILES normal) 255 ''Bold''
                    MAX_WIDTH True 1 = (h1, f1, n1)"
  shows "(n1 \<le> 3 \<longrightarrow> measure_title P title_text = (255, h1, f1, n1)) \<and>
    (3 < n1 \<longrightarrow>
      (\<exists>first_word more_words size' font'.
         split title_text = first_word # more_words \<and>
         fit_font P (FONT_FILES normal) 235 ''Bold'' MAX_WIDTH
           (max_by_len first_word more_words) = (size', font') \<and>
         font' = load_font P (FONT_FILES normal) size' ''Bold'' \<and>
         size' \<le> 235 \<and>
         (bbox_width (textbbox P (load_font P (FONT_FILES normal) 235 ''Bold'')
                        (max_by_len first_word more_words)) \<le> MAX_WIDTH \<longrightarrow> size' = 235) \<and>
         measure_title P title_text =
           (235,
            of_nat (length (wrap_lines P font' MAX_WIDTH (split title_text)))
              * (of_int (getattr_size P font' size') * 1),
            font', length (wrap_lines P font' MAX_WIDTH (split title_text))) \<and>
         row_title_size (layout_row P image_height title_text pron_text def_text) = 235 \<and>
         row_f_title (layout_row P image_height title_text pron_text def_text) = font'))"
proof (intro conjI impI)
  assume "n1 \<le> 3"
  with first show "measure_title P title_text = (255, h1, f1, n1)"
    by (simp add: measure_title_def)
next
  assume many: "3 < n1"
  then have "0 < n1" by simp
  from calculate_text_height_no_lines [OF first this]
  obtain first_word more_words where words: "split title_text = first_word # more_words"
    by blast
  obtain size' font' where fit:
    "fit_font P (FONT_FILES normal) 235 ''Bold'' MAX_WIDTH
       (max_by_len first_word more_words) = (size', font')"
    by (cases "fit_font P (FONT_FILES normal) 235 ''Bold'' MAX_WIDTH
       (max_by_len first_word more_words)") blast
  note facts = fit_font_facts [OF fit]
  let ?n = "length (wrap_lines P font' MAX_WIDTH (split title_text))"
  let ?h = "of_nat ?n * (of_int (getattr_size P font' size') * 1) :: real"
  have second: "calculate_text_height P title_text (FONT_FILES normal) 235 ''Bold''
      MAX_WIDTH True 1 = (?h, font', ?n)"
    by (rule calculate_text_height_words [OF words fit])
  have m: "measure_title P title_text = (235, ?h, font', ?n)"
    using first many second by (simp add: measure_title_def)
  from layout_row_title [OF m, of image_height pron_text def_text]
  have "row_title_size (layout_row P image_height title_text pron_text def_text) = 235"
    and "row_f_title (layout_row P image_height title_text pron_text def_text) = font'"
    by simp_all
  with words fit facts(1,2,3) m
  show "\<exists>first_word more_words size' font'.
         split title_text = first_word # more_words \<and>
         fit_font P (FONT_FILES normal) 235 ''Bold'' MAX_WIDTH
           (max_by_len first_word more_words) = (size', font') \<and>
         font' = load_font P (FONT_FILES normal) size' ''Bold'' \<and>
         size' \<le> 235 \<and>
         (bbox_width (textbbox P (load_font P (FONT_FILES normal) 235 ''Bold'')
                        (max_by_len first_word more_words)) \<le> MAX_WIDTH \<longrightarrow> size' = 235) \<and>
         measure_title P title_text =
           (235,
            of_nat (length (wrap_lines P font' MAX_WIDTH (split title_text)))
              * (of_int (getattr_size P font' size') * 1),
            font', length (wrap_lines P font' MAX_WIDTH (split title_text))) \<and>
         row_title_size (layout_row P image_height title_text pron_text def_text) = 235 \<and>
         row_f_title (layout_row P image_height title_text pron_text def_text) = font'"
    by blast
qed


lemmas measure_eval =
  measure_title_def measure_definition_def measure_pronunciation_def
  calculate_text_height_def wrap_lines_def getattr_size_def

theorem title_retry_witness:
  "calculate_text_height demo_pil ''WWWWW WWWWW WWWWW WWWWW'' (FONT_FILES normal) 255 ''Bold''
     MAX_WIDTH True 1 = (1020, FreeTypeFont ''Cabin-Variable.ttf'' 255 ''Bold'', 4) \<and>
   (3::nat) < 4 \<and>
   measure_title demo_pil ''WWWWW WWWWW WWWWW WWWWW'' =
     (235, 940, FreeTypeFont ''Cabin-Variable.ttf'' 235 ''Bold'', 4) \<and>
   row_title_size (layout_row demo_pil 2000 ''WWWWW WWWWW WWWWW WWWWW'' [] []) = 235"
proof -
  have first: "calculate_text_height demo_pil ''WWWWW WWWWW WWWWW WWWWW'' (FONT_FILES normal)
      255 ''Bold'' MAX_WIDTH True 1 = (1020, FreeTypeFont ''Cabin-Variable.ttf'' 255 ''Bold'', 4)"
    by (simp add: measure_eval demo_eval text_eval)
  have m: "measure_title demo_pil ''WWWWW WWWWW WWWWW WWWWW'' =
     (235, 940, FreeTypeFont ''Cabin-Variable.ttf'' 235 ''Bold'', 4)"
    by (simp add: measure_eval demo_eval text_eval)
  from title_retry [OF first, of 2000 "[]" "[]"]
  have "row_title_size (layout_row demo_pil 2000 ''WWWWW WWWWW WWWWW WWWWW'' [] []) = 235"
    by auto
  with first m show ?thesis by simp
qed

text \<open>
  A title of four words of eight wide glyphs. Each word is wider than \<open>MAX_WIDTH\<close> at
  255 and at 235, so the title wraps to four lines at the default size, and the retry
  started at 235 shrinks to 211: the font laid out and the size handed to the drawing
  call are 211, not 235.
\<close>

theorem title_retry_size_counterexample:
  "length (wrap_lines demo_pil (load_font demo_pil (FONT_FILES normal) 255 ''Bold'') MAX_WIDTH
     (split ''WWWWWWWW WWWWWWWW WWWWWWWW WWWWWWWW'')) = 4 \<and>
   calculate_text_height demo_pil ''WWWWWWWW WWWWWWWW WWWWWWWW WWWWWWWW'' (FONT_FILES normal)
     255 ''Bold'' MAX_WIDTH True 1 = (824, FreeTypeFont ''Cabin-Variable.ttf'' 206 ''Bold'', 4) \<and>
   measure_title demo_pil ''WWWWWWWW WWWWWWWW WWWWWWWW WWWWWWWW'' =
     (235, 844, FreeTypeFont ''Cabin-Variable.ttf'' 211 ''Bold'', 4) \<and>
   getattr_size demo_pil
     (row_f_title (layout_row demo_pil 2000 ''WWWWWWWW WWWWWWWW WWWWWWWW WWWWWWWW'' [] []))
     (row_title_size (layout_row demo_pil 2000 ''WWWWWWWW WWWWWWWW WWWWWWWW WWWWWWWW'' [] []))
     = 211 \<and>
   (211::int) \<noteq> 255 - 20"
proof -
  have m: "measure_title demo_pil ''WWWWWWWW WWWWWWWW WWWWWWWW WWWWWWWW'' =
     (235, 844, FreeTypeFont ''Cabin-Variable.ttf'' 211 ''Bold'', 4)"
    by (simp add: measure_eval demo_eval text_eval)
  have "length (wrap_lines demo_pil (load_font demo_pil (FONT_FILES normal) 255 ''Bold'')
     MAX_WIDTH (split ''WWWWWWWW WWWWWWWW WWWWWWWW WWWWWWWW'')) = 4"
    by (simp add: measure_eval demo_eval text_eval)
  moreover have "calculate_text_height demo_pil ''WWWWWWWW WWWWWWWW WWWWWWWW WWWWWWWW''
     (FONT_FILES normal) 255 ''Bold'' MAX_WIDTH True 1 =
     (824, FreeTypeFont ''Cabin-Variable.ttf'' 206 ''Bold'', 4)"
    by (simp add: measure_eval demo_eval text_eval)
  moreover have "getattr_size demo_pil
     (row_f_title (layout_row demo_pil 2000 ''WWWWWWWW WWWWWWWW WWWWWWWW WWWWWWWW'' [] []))
     (row_title_size (layout_row demo_pil 2000 ''WWWWWWWW WWWWWWWW WWWWWWWW WWWWWWWW'' [] []))
     = 211"
    using layout_row_title [OF m, of 2000 "[]" "[]"]
    by (simp add: getattr_size_def demo_pil_def)
  ultimately show ?thesis using m by simp
qed

text \<open>
  Claim C5, as the code has it. When the first measurement of the definition, started at
  size 157, counts more than 5 lines, the definition is measured once more, started at
  the fixed size 130, and that second result is the one laid out and drawn, whatever its
  line count. The second measurement runs the word-width loop again: its font is the one
  loaded at the size that loop returns, which is at most 130 and is 130 when the longest
  word is not wider than \<open>MAX_WIDTH\<close> at 130; the lines are wrapped in that font. With at
  most 5 lines the first measurement is kept. The pronunciation is measured once, started
  at 116, and its line count is not looked at.
\<close>

theorem definition_retry:
  assumes first: "calculate_text_height P def_text (FONT_FILES normal) 157 ''Medium''
                    MAX_WIDTH True 1.2 = (h1, f1, n1)"
  shows "(n1 \<le> 5 \<longrightarrow> measure_definition P def_text = (157, h1, f1, n1)) \<and>
    (5 < n1 \<longrightarrow>
      (\<exists>first_word more_words size' font'.
         split def_text = first_word # more_words \<and>
         fit_font P (FONT_FILES normal) 130 ''Medium'' MAX_WIDTH
           (max_by_len first_word more_words) = (size', font') \<and>
         font' = load_font P (FONT_FILES normal) size' ''Medium'' \<and>
         size' \<le> 130 \<and>
         (bbox_width (textbbox P (load_font P (FONT_FILES normal) 130 ''Medium'')
                        (max_by_len first_word more_words)) \<le> MAX_WIDTH \<longrightarrow> size' = 130) \<and>
         measure_definition P def_text =
           (130,
            of_nat (length (wrap_lines P font' MAX_WIDTH (split def_text)))
              * (of_int (getattr_size P font' size') * 1.2),
            font', length (wrap_lines P font' MAX_WIDTH (split def_text))) \<and>
         row_def_size (layout_row P image_height title_text pron_text def_text) = 130 \<and>
         row_f_def (layout_row P image_height title_text pron_text def_text) = font')) \<and>
    (row_h_pron (layout_row P image_height title_text pron_text def_text),
     row_f_pron (layout_row P image_height title_text pron_text def_text)) =
      (case calculate_text_height P pron_text (FONT_FILES italic) 116 ''Italic'' MAX_WIDTH
              True 1.2 of
         (h_pron, f_pron, pron_lines) \<Rightarrow> (h_pron, f_pron))"
proof (intro conjI impI)
  assume "n1 \<le> 5"
  with first show "measure_definition P def_text = (157, h1, f1, n1)"
    by (simp add: measure_definition_def)
next
  assume many: "5 < n1"
  then have "0 < n1" by simp
  from calculate_text_height_no_lines [OF first this]
  obtain first_word more_words where words: "split def_text = first_word # more_words"
    by blast
  obtain size' font' where fit:
    "fit_font P (FONT_FILES normal) 130 ''Medium'' MAX_WIDTH
       (max_by_len first_word more_words) = (size', font')"
    by (cases "fit_font P (FONT_FILES normal) 130 ''Medium'' MAX_WIDTH
       (max_by_len first_word more_words)") blast
  note facts = fit_font_facts [OF fit]
  let ?n = "length (wrap_lines P font' MAX_WIDTH (split def_text))"
  let ?h = "of_nat ?n * (of_int (getattr_size P font' size') * 1.2) :: real"
  have second: "calculate_text_height P def_text (FONT_FILES normal) 130 ''Medium''
      MAX_WIDTH True 1.2 = (?h, font', ?n)"
    by (rule calculate_text_height_words [OF words fit])
  have m: "measure_definition P def_text = (130, ?h, font', ?n)"
    using first many second by (simp add: measure_definition_def)
  from layout_row_definition [OF m, of image_height title_text pron_text]
  have "row_def_size (layout_row P image_height title_text pron_text def_text) = 130"
    and "row_f_def (layout_row P image_height title_text pron_text def_text) = font'"
    by simp_all
  with words fit facts(1,2,3) m
  show "\<exists>first_word more_words size' font'.
         split def_text = first_word # more_words \<and>
         fit_font P (FONT_FILES normal) 130 ''Medium'' MAX_WIDTH
           (max_by_len first_word more_words) = (size', font') \<and>
         font' = load_font P (FONT_FILES normal) size' ''Medium'' \<and>
         size' \<le> 130 \<and>
         (bbox_width (textbbox P (load_font P (FONT_FILES normal) 130 ''Medium'')
                        (max_by_len first_word more_words)) \<le> MAX_WIDTH \<longrightarrow> size' = 130) \<and>
         measure_definition P def_text =
           (130,
            of_nat (length (wrap_lines P font' MAX_WIDTH (split def_text)))
              * (of_int (getattr_size P font' size') * 1.2),
            font', length (wrap_lines P font' MAX_WIDTH (split def_text))) \<and>
         row_def_size (layout_row P image_height title_text pron_text def_text) = 130 \<and>
         row_f_def (layout_row P image_height title_text pron_text def_text) = font'"
    by blast
next
  obtain h f n where p: "measure_pronunciation P pron_text = (h, f, n)"
    by (cases "measure_pronunciation P pron_text") blast
  from layout_row_pronunciation [OF p, of image_height title_text def_text] p
  show "(row_h_pron (layout_row P image_height title_text pron_text def_text),
     row_f_pron (layout_row P image_height title_text pron_text def_text)) =
      (case calculate_text_height P pron_text (FONT_FILES italic) 116 ''Italic'' MAX_WIDTH
              True 1.2 of
         (h_pron, f_pron, pron_lines) \<Rightarrow> (h_pron, f_pron))"
    by (simp add: measure_pronunciation_def)
qed

theorem definition_retry_witness:
  "calculate_text_height demo_pil ''WWWWWW WWWWWW WWWWWW WWWWWW WWWWWW WWWWWW'' (FONT_FILES normal)
     157 ''Medium'' MAX_WIDTH True 1.2 =
     (5652 / 5, FreeTypeFont ''Cabin-Variable.ttf'' 157 ''Medium'', 6) \<and>
   (5::nat) < 6 \<and>
   measure_definition demo_pil ''WWWWWW WWWWWW WWWWWW WWWWWW WWWWWW WWWWWW'' =
     (130, 468, FreeTypeFont ''Cabin-Variable.ttf'' 130 ''Medium'', 3) \<and>
   row_def_size (layout_row demo_pil 2000 [] [] ''WWWWWW WWWWWW WWWWWW WWWWWW WWWWWW WWWWWW'') = 130"
proof -
  have first: "calculate_text_height demo_pil ''WWWWWW WWWWWW WWWWWW WWWWWW WWWWWW WWWWWW''
      (FONT_FILES normal) 157 ''Medium'' MAX_WIDTH True 1.2 =
      (5652 / 5, FreeTypeFont ''Cabin-Variable.ttf'' 157 ''Medium'', 6)"
    by (simp add: measure_eval demo_eval text_eval)
  have m: "measure_definition demo_pil ''WWWWWW WWWWWW WWWWWW WWWWWW WWWWWW WWWWWW'' =
     (130, 468, FreeTypeFont ''Cabin-Variable.ttf'' 130 ''Medium'', 3)"
    by (simp add: measure_eval demo_eval text_eval)
  from definition_retry [OF first, of 2000 "[]" "[]"]
  have "row_def_size (layout_row demo_pil 2000 [] [] ''WWWWWW WWWWWW WWWWWW WWWWWW WWWWWW WWWWWW'')
      = 130"
    by auto
  with first m show ?thesis by simp
qed


text \<open>
  A definition of six words of fourteen wide glyphs. Each word is wider than
  \<open>MAX_WIDTH\<close> at 157 and at 130, so the definition wraps to six lines at the default
  size, and the retry started at 130 shrinks to 117: the font laid out and the size
  handed to the drawing call are 117, not 130.
\<close>

theorem definition_retry_size_counterexample:
  "length (wrap_lines demo_pil (load_font demo_pil (FONT_FILES normal) 157 ''Medium'') MAX_WIDTH
     (split 
     ''WWWWWWWWWWWWWW WWWWWWWWWWWWWW WWWWWWWWWWWWWW WWWWWWWWWWWWWW WWWWWWWWWWWWWW WWWWWWWWWWWWWW'')) = 6 \<and>
   calculate_text_height demo_pil 
     ''WWWWWWWWWWWWWW WWWWWWWWWWWWWW WWWWWWWWWWWWWW WWWWWWWWWWWWWW WWWWWWWWWWWWWW WWWWWWWWWWWWWW'' (FONT_FILES normal) 157 ''Medium'' MAX_WIDTH True 1.2 =
     (4068 / 5, FreeTypeFont ''Cabin-Variable.ttf'' 113 ''Medium'', 6) \<and>
   measure_definition demo_pil 
     ''WWWWWWWWWWWWWW WWWWWWWWWWWWWW WWWWWWWWWWWWWW WWWWWWWWWWWWWW WWWWWWWWWWWWWW WWWWWWWWWWWWWW'' =
     (130, 4212 / 5, FreeTypeFont ''Cabin-Variable.ttf'' 117 ''Medium'', 6) \<and>
   getattr_size demo_pil (row_f_def (layout_row demo_pil 2000 [] [] 
     ''WWWWWWWWWWWWWW WWWWWWWWWWWWWW WWWWWWWWWWWWWW WWWWWWWWWWWWWW WWWWWWWWWWWWWW WWWWWWWWWWWWWW''))
     (row_def_size (layout_row demo_pil 2000 [] [] 
     ''WWWWWWWWWWWWWW WWWWWWWWWWWWWW WWWWWWWWWWWWWW WWWWWWWWWWWWWW WWWWWWWWWWWWWW WWWWWWWWWWWWWW'')) = 117 \<and>
   (117::int) \<noteq> 130"
proof -
  have m: "measure_definition demo_pil 
     ''WWWWWWWWWWWWWW WWWWWWWWWWWWWW WWWWWWWWWWWWWW WWWWWWWWWWWWWW WWWWWWWWWWWWWW WWWWWWWWWWWWWW'' =
     (130, 4212 / 5, FreeTypeFont ''Cabin-Variable.ttf'' 117 ''Medium'', 6)"
    by (simp add: measure_eval demo_eval text_eval)
  have "length (wrap_lines demo_pil (load_font demo_pil (FONT_FILES normal) 157 ''Medium'')
     MAX_WIDTH (split 
     ''WWWWWWWWWWWWWW WWWWWWWWWWWWWW WWWWWWWWWWWWWW WWWWWWWWWWWWWW WWWWWWWWWWWWWW WWWWWWWWWWWWWW'')) = 6"
    by (simp add: measure_eval demo_eval text_eval)
  moreover have "calculate_text_height demo_pil 
     ''WWWWWWWWWWWWWW WWWWWWWWWWWWWW WWWWWWWWWWWWWW WWWWWWWWWWWWWW WWWWWWWWWWWWWW WWWWWWWWWWWWWW'' (FONT_FILES normal) 157 ''Medium''
     MAX_WIDTH True 1.2 = (4068 / 5, FreeTypeFont ''Cabin-Variable.ttf'' 113 ''Medium'', 6)"
    by (simp add: measure_eval demo_eval text_eval)
  moreover have "getattr_size demo_pil (row_f_def (layout_row demo_pil 2000 [] [] 
     ''WWWWWWWWWWWWWW WWWWWWWWWWWWWW WWWWWWWWWWWWWW WWWWWWWWWWWWWW WWWWWWWWWWWWWW WWWWWWWWWWWWWW''))
     (row_def_size (layout_row demo_pil 2000 [] [] 
     ''WWWWWWWWWWWWWW WWWWWWWWWWWWWW WWWWWWWWWWWWWW WWWWWWWWWWWWWW WWWWWWWWWWWWWW WWWWWWWWWWWWWW'')) = 117"
    using layout_row_definition [OF m, of 2000 "[]" "[]"]
    by (simp add: getattr_size_def demo_pil_def)
  ultimately show ?thesis using m by simp
qed

section \<open>Drawing\<close>

lemma draw_lines_append:
  "draw_lines draw x y line_height font fill lines =
     draw @ draw_lines [] x y line_height font fill lines"
proof (induction lines arbitrary: draw y)
  case Nil
  then show ?case by simp
next
  case (Cons line lines)
  have "draw_lines (draw @ [((x, y), line, font, fill)]) x (y + line_height) line_height font
          fill lines =
        (draw @ [((x, y), line, font, fill)])
          @ draw_lines [] x (y + line_height) line_height font fill lines"
    by (rule Cons.IH)
  moreover have "draw_lines [((x, y), line, font, fill)] x (y + line_height) line_height font
          fill lines =
        [((x, y), line, font, fill)]
          @ draw_lines [] x (y + line_height) line_height font fill lines"
    by (rule Cons.IH)
  ultimately show ?case by simp
qed

lemma draw_lines_positions:
  "draw_lines [] x (y + of_nat k * line_height) line_height font fill lines =
     map (\<lambda>(i, line). ((x, y + of_nat i * line_height), line, font, fill)) (enumerate k lines)"
proof (induction lines arbitrary: k)
  case Nil
  then show ?case by simp
next
  case (Cons line lines)
  have eq: "y + of_nat k * line_height + line_height = y + of_nat (Suc k) * line_height"
    by (simp add: algebra_simps)
  have "draw_lines [] x (y + of_nat k * line_height + line_height) line_height font fill
      lines =
    map (\<lambda>(i, line). ((x, y + of_nat i * line_height), line, font, fill))
      (enumerate (Suc k) lines)"
    unfolding eq by (rule Cons.IH)
  then show ?case
    using draw_lines_append [of "[((x, y + of_nat k * line_height), line, font, fill)]" x
        "y + of_nat k * line_height + line_height" line_height font fill lines]
    by simp
qed

lemma draw_lines_from:
  "draw_lines draw x y line_height font fill lines =
     draw @ map (\<lambda>(i, line). ((x, y + of_nat i * line_height), line, font, fill))
              (enumerate 0 lines)"
  using draw_lines_append [of draw x y line_height font fill lines]
    draw_lines_positions [of x y 0 line_height font fill lines]
  by simp

lemma draw_lines_move:
  "draw_lines draw x (y + d) line_height font fill lines =
     draw @ map (move_down d) (draw_lines [] x y line_height font fill lines)"
  by (simp add: draw_lines_from [of draw] draw_lines_from [of "[]"] move_down_def
      case_prod_beta add.assoc add.left_commute add.commute)

lemma draw_text_wrapped_move:
  "draw_text_wrapped P draw text (x, y + d) max_width font_file max_size variation fill
     line_spacing =
   (case draw_text_wrapped P [] text (x, y) max_width font_file max_size variation fill
           line_spacing of
      Inl e \<Rightarrow> Inl e
    | Inr new \<Rightarrow> Inr (draw @ map (move_down d) new))"
  by (simp add: draw_text_wrapped_def Let_def draw_lines_move
      split: list.splits prod.splits)


lemma move_down_zero: "map (move_down 0) ops = ops"
  by (induction ops) (simp_all add: move_down_def split: prod.splits)

lemma move_down_add: "map (move_down d) (map (move_down e) ops) = map (move_down (e + d)) ops"
  by (induction ops) (simp_all add: move_down_def split: prod.splits)

lemma draw_text_wrapped_append:
  "draw_text_wrapped P draw text (x, y) max_width font_file max_size variation fill
     line_spacing =
   (case draw_text_wrapped P [] text (x, y) max_width font_file max_size variation fill
           line_spacing of
      Inl e \<Rightarrow> Inl e
    | Inr new \<Rightarrow> Inr (draw @ new))"
  using draw_text_wrapped_move [of P draw "text" x y 0 max_width font_file max_size variation
      fill line_spacing]
  by (simp add: move_down_zero split: sum.splits)

lemma draw_row_move:
  "draw_row P draw (L\<lparr>row_start_y := row_start_y L + d\<rparr>) title_text pron_text def_text =
   (case draw_row P [] L title_text pron_text def_text of
      Inl e \<Rightarrow> Inl e
    | Inr new \<Rightarrow> Inr (draw @ map (move_down d) new))"
proof -
  define y1 where "y1 = row_start_y L"
  define y2 where "y2 = row_start_y L + row_h_title L + SPACING"
  define y3 where "y3 = row_start_y L + row_h_title L + SPACING + row_h_pron L + SPACING"
  define c1 where "c1 = (\<lambda>dr y. draw_text_wrapped P dr title_text (fst POS_TITLE, y) MAX_WIDTH
    (FONT_FILES normal) (getattr_size P (row_f_title L) (row_title_size L)) ''Bold''
    ''black'' 1)"
  define c2 where "c2 = (\<lambda>dr y. draw_text_wrapped P dr pron_text (fst POS_PRONUNCIATION, y)
    MAX_WIDTH (FONT_FILES italic) (getattr_size P (row_f_pron L) (st_size (STYLES Pronunciation)))
    ''Italic'' ''black'' 1.2)"
  define c3 where "c3 = (\<lambda>dr y. draw_text_wrapped P dr def_text (fst POS_DEFINITION, y)
    MAX_WIDTH (FONT_FILES normal) (getattr_size P (row_f_def L) (row_def_size L)) ''Medium''
    ''black'' 1.2)"
  have plain: "draw_row P dr L title_text pron_text def_text =
      (case c1 dr y1 of Inl e \<Rightarrow> Inl e
       | Inr dr1 \<Rightarrow> (case c2 dr1 y2 of Inl e \<Rightarrow> Inl e | Inr dr2 \<Rightarrow> c3 dr2 y3))" for dr
    by (simp add: draw_row_def Let_def c1_def c2_def c3_def y1_def y2_def y3_def
        split: sum.splits)
  have moved: "draw_row P dr (L\<lparr>row_start_y := row_start_y L + d\<rparr>) title_text pron_text
        def_text =
      (case c1 dr (y1 + d) of Inl e \<Rightarrow> Inl e
       | Inr dr1 \<Rightarrow> (case c2 dr1 (y2 + d) of Inl e \<Rightarrow> Inl e | Inr dr2 \<Rightarrow> c3 dr2 (y3 + d)))"
    for dr
    by (simp add: draw_row_def Let_def c1_def c2_def c3_def y1_def y2_def y3_def ac_simps
        split: sum.splits)
  have m1: "c1 dr (y + e) =
      (case c1 [] y of Inl e \<Rightarrow> Inl e | Inr new \<Rightarrow> Inr (dr @ map (move_down e) new))"
    for dr y e unfolding c1_def by (rule draw_text_wrapped_move)
  have m2: "c2 dr (y + e) =
      (case c2 [] y of Inl e \<Rightarrow> Inl e | Inr new \<Rightarrow> Inr (dr @ map (move_down e) new))"
    for dr y e unfolding c2_def by (rule draw_text_wrapped_move)
  have m3: "c3 dr (y + e) =
      (case c3 [] y of Inl e \<Rightarrow> Inl e | Inr new \<Rightarrow> Inr (dr @ map (move_down e) new))"
    for dr y e unfolding c3_def by (rule draw_text_wrapped_move)
  have a2: "c2 dr y = (case c2 [] y of Inl e \<Rightarrow> Inl e | Inr new \<Rightarrow> Inr (dr @ new))" for dr y
    unfolding c2_def by (rule draw_text_wrapped_append)
  have a3: "c3 dr y = (case c3 [] y of Inl e \<Rightarrow> Inl e | Inr new \<Rightarrow> Inr (dr @ new))" for dr y
    unfolding c3_def by (rule draw_text_wrapped_append)
  show ?thesis
  proof (cases "c1 [] y1")
    case (Inl e)
    then show ?thesis by (simp add: plain moved m1)
  next
    case n1: (Inr n1)
    show ?thesis
    proof (cases "c2 [] y2")
      case (Inl e)
      then show ?thesis using n1 by (simp add: plain moved m1 m2 a2 [of n1 y2])
    next
      case n2: (Inr n2)
      show ?thesis
      proof (cases "c3 [] y3")
        case (Inl e)
        then show ?thesis using n1 n2
          by (simp add: plain moved m1 m2 m3 a2 [of n1 y2] a3 [of "n1 @ n2" y3])
      next
        case (Inr n3)
        then show ?thesis using n1 n2
          by (simp add: plain moved m1 m2 m3 a2 [of n1 y2] a3 [of "n1 @ n2" y3])
      qed
    qed
  qed
qed

lemma layout_row_canvas:
  "layout_row P image_height' title_text pron_text def_text =
     (layout_row P image_height title_text pron_text def_text)
       \<lparr>row_start_y := row_start_y (layout_row P image_height title_text pron_text def_text)
          + (of_int image_height' - of_int image_height) / 2\<rparr>"
  by (simp add: layout_row_def Let_def diff_divide_distrib split: prod.splits)

lemma layout_row_heights:
  "row_total_height (layout_row P image_height title_text pron_text def_text) =
     row_h_title (layout_row P image_height title_text pron_text def_text) + SPACING
     + row_h_pron (layout_row P image_height title_text pron_text def_text) + SPACING
     + row_h_def (layout_row P image_height title_text pron_text def_text) \<and>
   row_start_y (layout_row P image_height title_text pron_text def_text) =
     (of_int image_height
      - row_total_height (layout_row P image_height title_text pron_text def_text)) / 2"
  by (simp add: layout_row_def Let_def split: prod.splits)

text \<open>
  Claim C3. For every row and canvas height, the total height is the three block heights
  and two spacing gaps, \<open>start_y\<close> is half of what the canvas height exceeds it by, so
  \<open>start_y\<close> plus half the total height is half the canvas height (whether or not the
  group fits), and \<open>start_y\<close> is negative when the group is taller than the canvas. The
  block heights do not depend on the canvas height, and rendering on a canvas of another
  height gives the same outcome with every drawing call moved by half the difference of
  the heights: a group that does not fit is drawn as one that fits, neither failing nor
  clamped.
\<close>

theorem layout_centering:
  "row_total_height (layout_row P image_height title_text pron_text def_text) =
     row_h_title (layout_row P image_height title_text pron_text def_text) + SPACING
     + row_h_pron (layout_row P image_height title_text pron_text def_text) + SPACING
     + row_h_def (layout_row P image_height title_text pron_text def_text) \<and>
   row_start_y (layout_row P image_height title_text pron_text def_text) =
     (of_int image_height
      - row_total_height (layout_row P image_height title_text pron_text def_text)) / 2 \<and>
   row_start_y (layout_row P image_height title_text pron_text def_text)
     + row_total_height (layout_row P image_height title_text pron_text def_text) / 2 =
     of_int image_height / 2 \<and>
   (of_int image_height
      < row_total_height (layout_row P image_height title_text pron_text def_text) \<longrightarrow>
    row_start_y (layout_row P image_height title_text pron_text def_text) < 0) \<and>
   row_total_height (layout_row P image_height' title_text pron_text def_text) =
     row_total_height (layout_row P image_height title_text pron_text def_text) \<and>
   render_row P image_height' title_text pron_text def_text =
     (case render_row P image_height title_text pron_text def_text of
        Inl e \<Rightarrow> Inl e
      | Inr (ops, name) \<Rightarrow>
          Inr (map (move_down ((of_int image_height' - of_int image_height) / 2)) ops, name))"
proof -
  let ?L = "layout_row P image_height title_text pron_text def_text"
  note h = layout_row_heights [of P image_height title_text pron_text def_text]
  from h have c: "row_start_y ?L + row_total_height ?L / 2 = of_int image_height / 2"
    by (simp add: field_simps)
  from h have n: "of_int image_height < row_total_height ?L \<longrightarrow> row_start_y ?L < 0"
    by simp
  have s: "row_total_height (layout_row P image_height' title_text pron_text def_text) =
     row_total_height ?L"
    by (simp add: layout_row_canvas [of P image_height' title_text pron_text def_text
          image_height])
  have r: "render_row P image_height' title_text pron_text def_text =
     (case render_row P image_height title_text pron_text def_text of
        Inl e \<Rightarrow> Inl e
      | Inr (ops, name) \<Rightarrow>
          Inr (map (move_down ((of_int image_height' - of_int image_height) / 2)) ops, name))"
    unfolding render_row_def
      layout_row_canvas [of P image_height' title_text pron_text def_text image_height]
      draw_row_move
    by (simp split: sum.splits)
  from h c n s r show ?thesis by blast
qed


theorem layout_centering_witness:
  "row_total_height
     (layout_row demo_pil 100 ''Hello World'' ''helo'' ''A common greeting'') = 3913 / 5 \<and>
   (of_int 100 :: real) < 3913 / 5 \<and>
   row_start_y (layout_row demo_pil 100 ''Hello World'' ''helo'' ''A common greeting'') < 0 \<and>
   row_start_y (layout_row demo_pil 100 ''Hello World'' ''helo'' ''A common greeting'')
     + (3913 / 5) / 2 = of_int 100 / 2"
proof -
  have t: "row_total_height
     (layout_row demo_pil 100 ''Hello World'' ''helo'' ''A common greeting'') = 3913 / 5"
    by (simp add: layout_row_def measure_eval demo_eval text_eval SPACING_def)
  from layout_centering [of demo_pil 100 "''Hello World''" "''helo''" "''A common greeting''"
      2000] t
  show ?thesis by simp
qed

section \<open>Drawing after measuring\<close>

lemma py_int_positive: "0 < a \<Longrightarrow> a \<le> m \<Longrightarrow> 0 < py_int (m / a)"
proof -
  assume a: "0 < a" "a \<le> m"
  then have "1 \<le> m / a" by (simp add: le_divide_eq_1_pos)
  then have "1 \<le> \<lfloor>m / a\<rfloor>" by (simp add: le_floor_iff)
  moreover from a have "0 \<le> m / a" by simp
  ultimately show ?thesis by (simp add: py_int_def)
qed

lemma resolved_font:
  "resolved P text font_file max_size variation max_width = (size1, font) \<Longrightarrow>
   font = load_font P font_file size1 variation"
  by (auto simp: resolved_def fit_font_facts(1) split: list.splits)

lemma calculate_text_height_resolved:
  assumes "resolved P text font_file max_size variation max_width = (size1, font)"
  shows "calculate_text_height P text font_file max_size variation max_width True line_spacing =
    (of_nat (length (wrap_lines P font max_width (split text)))
       * field_line_height P text font_file max_size variation max_width line_spacing,
     font, length (wrap_lines P font max_width (split text)))"
proof (cases "split text")
  case Nil
  with assms show ?thesis
    by (auto simp: resolved_def calculate_text_height_def wrap_lines_def)
next
  case (Cons first_word more_words)
  with assms have fit: "fit_font P font_file max_size variation max_width
      (max_by_len first_word more_words) = (size1, font)"
    by (simp add: resolved_def)
  from calculate_text_height_words [OF Cons fit, of line_spacing] assms
  show ?thesis by (simp add: field_line_height_def)
qed

lemma draw_pass_resolved:
  assumes res: "resolved P text font_file max_size variation max_width = (size1, font)"
    and contract: "font_size P font = None \<or> font_size P font = Some size1 \<or>
       (\<forall>s. load_font P font_file s variation = font)"
  shows "\<exists>size2.
    resolved P text font_file (getattr_size P font max_size) variation max_width = (size2, font) \<and>
    getattr_size P font size2 = getattr_size P font size1 \<and>
    (font_size P font = Some size1 \<longrightarrow> size2 = size1)"
proof (cases "font_size P font")
  case None
  then have "getattr_size P font max_size = max_size" "getattr_size P font s = s" for s
    by (simp_all add: getattr_size_def)
  with res None show ?thesis by simp
next
  case (Some j)
  have start: "getattr_size P font max_size = j"
    using Some by (simp add: getattr_size_def)
  have same_size: "getattr_size P font s = getattr_size P font size1" for s
    using Some by (simp add: getattr_size_def)
  obtain size2 font2 where again:
    "resolved P text font_file j variation max_width = (size2, font2)"
    by (cases "resolved P text font_file j variation max_width") blast
  have noop: "font2 = font \<and> size2 = size1" if j: "j = size1"
  proof (cases "split text")
    case Nil
    with res again j show ?thesis by (auto simp: resolved_def)
  next
    case (Cons first_word more_words)
    let ?lw = "max_by_len first_word more_words"
    from res Cons have fit: "fit_font P font_file max_size variation max_width ?lw =
        (size1, font)"
      by (simp add: resolved_def)
    note loaded = fit_font_facts(1) [OF fit]
    note exit = fit_font_facts(4) [OF fit]
    have "fit_font P font_file size1 variation max_width ?lw =
            shrink_loop P font_file variation max_width ?lw
              (size1, load_font P font_file size1 variation)"
      by (simp only: fit_font_def)
    also have "\<dots> = shrink_loop P font_file variation max_width ?lw (size1, font)"
      by (simp only: loaded [symmetric])
    also have "\<dots> = (size1, font)"
      using exit by (rule shrink_loop_noop)
    finally have "fit_font P font_file size1 variation max_width ?lw = (size1, font)" .
    with again Cons j show ?thesis by (simp add: resolved_def)
  qed
  from contract Some have "j = size1 \<or> (\<forall>s. load_font P font_file s variation = font)"
    by auto
  then have "font2 = font"
  proof
    assume "j = size1"
    with noop show ?thesis by simp
  next
    assume "\<forall>s. load_font P font_file s variation = font"
    with resolved_font [OF again] show ?thesis by simp
  qed
  with again start same_size noop Some show ?thesis by auto
qed

lemma draw_text_wrapped_resolved:
  assumes res: "resolved P text font_file max_size variation max_width = (size1, font)"
    and ok: "resolved_font_ok P text font_file max_size variation max_width"
  shows "draw_text_wrapped P draw text (x, y) max_width font_file
      (getattr_size P font max_size) variation fill line_spacing =
    Inr (draw @ block_ops x y
           (field_line_height P text font_file max_size variation max_width line_spacing)
           font fill (wrap_lines P font max_width (split text)))"
proof (cases "split text")
  case Nil
  then show ?thesis
    by (simp add: draw_text_wrapped_def wrap_lines_def block_ops_def)
next
  case (Cons first_word more_words)
  let ?lw = "max_by_len first_word more_words"
  from ok res Cons have contract: "font_size P font = None \<or> font_size P font = Some size1 \<or>
       (\<forall>s. load_font P font_file s variation = font)"
    and x_pos: "0 < textlength P font ''x''"
    and x_fits: "textlength P font ''x'' * 0.8 \<le> max_width"
    by (simp_all add: resolved_font_ok_def)
  from draw_pass_resolved [OF res contract] obtain size2 where again:
    "resolved P text font_file (getattr_size P font max_size) variation max_width =
       (size2, font)"
    and same: "getattr_size P font size2 = getattr_size P font size1"
    by blast
  from again Cons have fit2: "fit_font P font_file (getattr_size P font max_size) variation
      max_width ?lw = (size2, font)"
    by (simp add: resolved_def)
  from x_pos have nz: "textlength P font ''x'' * 0.8 \<noteq> 0" by simp
  from x_pos x_fits have pos: "0 < py_int (max_width / (textlength P font ''x'' * 0.8))"
    by (intro py_int_positive) simp_all
  have "draw_text_wrapped P draw text (x, y) max_width font_file
        (getattr_size P font max_size) variation fill line_spacing =
      Inr (draw_lines draw x y (of_int (getattr_size P font size1) * line_spacing) font fill
             (wrap_lines P font max_width (split text)))"
    using Cons fit2 same nz pos by (simp add: draw_text_wrapped_def Let_def)
  also have "of_int (getattr_size P font size1) * line_spacing =
      field_line_height P text font_file max_size variation max_width line_spacing"
    using res by (simp add: field_line_height_def)
  finally show ?thesis
    by (simp only: draw_lines_from block_ops_def)
qed

lemma measure_title_last:
  "measure_title P title_text = (sz, h, f, n) \<Longrightarrow>
   calculate_text_height P title_text (FONT_FILES normal) sz ''Bold'' MAX_WIDTH True 1 = (h, f, n)"
  by (auto simp: measure_title_def Let_def split: prod.splits if_splits)

lemma measure_definition_last:
  "measure_definition P def_text = (sz, h, f, n) \<Longrightarrow>
   calculate_text_height P def_text (FONT_FILES normal) sz ''Medium'' MAX_WIDTH True 1.2 =
     (h, f, n)"
  by (auto simp: measure_definition_def Let_def split: prod.splits if_splits)


lemma draw_row_blocks:
  assumes L: "L = layout_row P image_height title_text pron_text def_text"
    and t_ok: "resolved_font_ok P title_text (FONT_FILES normal) (row_title_size L) ''Bold''
                 MAX_WIDTH"
    and p_ok: "resolved_font_ok P pron_text (FONT_FILES italic)
                 (st_size (STYLES Pronunciation)) ''Italic'' MAX_WIDTH"
    and d_ok: "resolved_font_ok P def_text (FONT_FILES normal) (row_def_size L) ''Medium''
                 MAX_WIDTH"
  shows "draw_row P draw L title_text pron_text def_text =
      Inr (draw
        @ block_ops (fst POS_TITLE) (row_start_y L)
            (field_line_height P title_text (FONT_FILES normal) (row_title_size L) ''Bold''
               MAX_WIDTH 1)
            (row_f_title L) ''black'' (wrap_lines P (row_f_title L) MAX_WIDTH (split title_text))
        @ block_ops (fst POS_PRONUNCIATION) (row_start_y L + row_h_title L + SPACING)
            (field_line_height P pron_text (FONT_FILES italic) (st_size (STYLES Pronunciation))
               ''Italic'' MAX_WIDTH 1.2)
            (row_f_pron L) ''black'' (wrap_lines P (row_f_pron L) MAX_WIDTH (split pron_text))
        @ block_ops (fst POS_DEFINITION)
            (row_start_y L + row_h_title L + SPACING + row_h_pron L + SPACING)
            (field_line_height P def_text (FONT_FILES normal) (row_def_size L) ''Medium''
               MAX_WIDTH 1.2)
            (row_f_def L) ''black'' (wrap_lines P (row_f_def L) MAX_WIDTH (split def_text))) \<and>
    row_h_title L =
      of_nat (length (wrap_lines P (row_f_title L) MAX_WIDTH (split title_text)))
      * field_line_height P title_text (FONT_FILES normal) (row_title_size L) ''Bold''
          MAX_WIDTH 1 \<and>
    row_h_pron L =
      of_nat (length (wrap_lines P (row_f_pron L) MAX_WIDTH (split pron_text)))
      * field_line_height P pron_text (FONT_FILES italic) (st_size (STYLES Pronunciation))
          ''Italic'' MAX_WIDTH 1.2 \<and>
    row_h_def L =
      of_nat (length (wrap_lines P (row_f_def L) MAX_WIDTH (split def_text)))
      * field_line_height P def_text (FONT_FILES normal) (row_def_size L) ''Medium''
          MAX_WIDTH 1.2"
proof -
  obtain t_sz t_h t_f t_n where mt: "measure_title P title_text = (t_sz, t_h, t_f, t_n)"
    by (cases "measure_title P title_text") blast
  obtain d_sz d_h d_f d_n where md: "measure_definition P def_text = (d_sz, d_h, d_f, d_n)"
    by (cases "measure_definition P def_text") blast
  obtain p_h p_f p_n where mp: "measure_pronunciation P pron_text = (p_h, p_f, p_n)"
    by (cases "measure_pronunciation P pron_text") blast
  from layout_row_title [OF mt, of image_height pron_text def_text] L
  have Lt: "row_title_size L = t_sz" "row_h_title L = t_h" "row_f_title L = t_f"
    by simp_all
  from layout_row_definition [OF md, of image_height title_text pron_text] L
  have Ld: "row_def_size L = d_sz" "row_h_def L = d_h" "row_f_def L = d_f"
    by simp_all
  from layout_row_pronunciation [OF mp, of image_height title_text def_text] L
  have Lp: "row_h_pron L = p_h" "row_f_pron L = p_f"
    by simp_all
  obtain t_s1 t_font where tr:
    "resolved P title_text (FONT_FILES normal) t_sz ''Bold'' MAX_WIDTH = (t_s1, t_font)"
    by (cases "resolved P title_text (FONT_FILES normal) t_sz ''Bold'' MAX_WIDTH") blast
  obtain d_s1 d_font where dr:
    "resolved P def_text (FONT_FILES normal) d_sz ''Medium'' MAX_WIDTH = (d_s1, d_font)"
    by (cases "resolved P def_text (FONT_FILES normal) d_sz ''Medium'' MAX_WIDTH") blast
  obtain p_s1 p_font where pr:
    "resolved P pron_text (FONT_FILES italic) (st_size (STYLES Pronunciation)) ''Italic''
       MAX_WIDTH = (p_s1, p_font)"
    by (cases "resolved P pron_text (FONT_FILES italic) (st_size (STYLES Pronunciation))
       ''Italic'' MAX_WIDTH") blast
  from measure_title_last [OF mt] calculate_text_height_resolved [OF tr, of 1]
  have t: "t_f = t_font"
    "t_h = of_nat (length (wrap_lines P t_font MAX_WIDTH (split title_text)))
       * field_line_height P title_text (FONT_FILES normal) t_sz ''Bold'' MAX_WIDTH 1"
    by simp_all
  from measure_definition_last [OF md] calculate_text_height_resolved [OF dr, of "1.2"]
  have d: "d_f = d_font"
    "d_h = of_nat (length (wrap_lines P d_font MAX_WIDTH (split def_text)))
       * field_line_height P def_text (FONT_FILES normal) d_sz ''Medium'' MAX_WIDTH 1.2"
    by simp_all
  from mp calculate_text_height_resolved [OF pr, of "1.2"]
  have p: "p_f = p_font"
    "p_h = of_nat (length (wrap_lines P p_font MAX_WIDTH (split pron_text)))
       * field_line_height P pron_text (FONT_FILES italic) (st_size (STYLES Pronunciation))
           ''Italic'' MAX_WIDTH 1.2"
    by (simp_all add: measure_pronunciation_def)
  from t_ok Lt have t_ok': "resolved_font_ok P title_text (FONT_FILES normal) t_sz ''Bold''
      MAX_WIDTH"
    by simp
  from d_ok Ld have d_ok': "resolved_font_ok P def_text (FONT_FILES normal) d_sz ''Medium''
      MAX_WIDTH"
    by simp
  note td = draw_text_wrapped_resolved [OF tr t_ok', where line_spacing = "1.0"
      and fill = "''black''"]
  note pd = draw_text_wrapped_resolved [OF pr p_ok, where line_spacing = "1.2"
      and fill = "''black''"]
  note dd = draw_text_wrapped_resolved [OF dr d_ok', where line_spacing = "1.2"
      and fill = "''black''"]
  have "draw_row P draw L title_text pron_text def_text =
      Inr (draw
        @ block_ops (fst POS_TITLE) (row_start_y L)
            (field_line_height P title_text (FONT_FILES normal) t_sz ''Bold'' MAX_WIDTH 1.0)
            t_font ''black'' (wrap_lines P t_font MAX_WIDTH (split title_text))
        @ block_ops (fst POS_PRONUNCIATION) (row_start_y L + t_h + SPACING)
            (field_line_height P pron_text (FONT_FILES italic) (st_size (STYLES Pronunciation))
               ''Italic'' MAX_WIDTH 1.2)
            p_font ''black'' (wrap_lines P p_font MAX_WIDTH (split pron_text))
        @ block_ops (fst POS_DEFINITION) (row_start_y L + t_h + SPACING + p_h + SPACING)
            (field_line_height P def_text (FONT_FILES normal) d_sz ''Medium'' MAX_WIDTH 1.2)
            d_font ''black'' (wrap_lines P d_font MAX_WIDTH (split def_text)))"
    unfolding draw_row_def Let_def Lt Ld Lp t(1) d(1) p(1)
    by (simp only: td pd dd sum.case append_assoc)
  with Lt Ld Lp t d p show ?thesis by simp
qed


text \<open>
  Claim C10, as the code has it. Take a field, the pair (size, font) that measuring it
  resolves, and assume of the imaging library what \<open>resolved_font_ok\<close> says of that
  font. Then \<open>calculate_text_height\<close> returns that font, the line count of the wrap in
  that font, and the line count times the line height; and \<open>draw_text_wrapped\<close>, started
  at \<open>getattr(font, 'size', max_size)\<close>, resolves the same font with the same size
  attribute (and the same size, its loop doing nothing, when the font carries the
  resolved size), hence the same line height, wraps to the same lines, and draws line
  \<open>i\<close> at \<open>y\<close> plus \<open>i\<close> line heights. For a row, the three calls of \<open>draw_row\<close>
  draw exactly these blocks, each in the font and with the lines and the line height of
  its measurement, at \<open>start_y\<close>, one spacing below the title block and one spacing
  below the pronunciation block. With exact arithmetic a block therefore advances \<open>y\<close>
  by its measured height; the rounding of doubles is left to the counterexample below.
\<close>

theorem draw_matches_measurement:
  assumes res: "resolved P text font_file max_size variation max_width = (size1, font)"
    and ok: "resolved_font_ok P text font_file max_size variation max_width"
    and L: "L = layout_row P image_height title_text pron_text def_text"
  shows "calculate_text_height P text font_file max_size variation max_width True line_spacing =
      (of_nat (length (wrap_lines P font max_width (split text)))
         * field_line_height P text font_file max_size variation max_width line_spacing,
       font, length (wrap_lines P font max_width (split text))) \<and>
    (\<exists>size2.
       resolved P text font_file (getattr_size P font max_size) variation max_width =
         (size2, font) \<and>
       getattr_size P font size2 = getattr_size P font size1 \<and>
       (font_size P font = Some size1 \<longrightarrow> size2 = size1)) \<and>
    field_line_height P text font_file (getattr_size P font max_size) variation max_width
        line_spacing =
      field_line_height P text font_file max_size variation max_width line_spacing \<and>
    draw_text_wrapped P draw text (x, y) max_width font_file (getattr_size P font max_size)
        variation fill line_spacing =
      Inr (draw @ block_ops x y
             (field_line_height P text font_file max_size variation max_width line_spacing)
             font fill (wrap_lines P font max_width (split text))) \<and>
    (resolved_font_ok P title_text (FONT_FILES normal) (row_title_size L) ''Bold'' MAX_WIDTH \<and>
     resolved_font_ok P pron_text (FONT_FILES italic) (st_size (STYLES Pronunciation))
       ''Italic'' MAX_WIDTH \<and>
     resolved_font_ok P def_text (FONT_FILES normal) (row_def_size L) ''Medium'' MAX_WIDTH \<longrightarrow>
     draw_row P draw L title_text pron_text def_text =
      Inr (draw
        @ block_ops (fst POS_TITLE) (row_start_y L)
            (field_line_height P title_text (FONT_FILES normal) (row_title_size L) ''Bold''
               MAX_WIDTH 1)
            (row_f_title L) ''black'' (wrap_lines P (row_f_title L) MAX_WIDTH (split title_text))
        @ block_ops (fst POS_PRONUNCIATION) (row_start_y L + row_h_title L + SPACING)
            (field_line_height P pron_text (FONT_FILES italic) (st_size (STYLES Pronunciation))
               ''Italic'' MAX_WIDTH 1.2)
            (row_f_pron L) ''black'' (wrap_lines P (row_f_pron L) MAX_WIDTH (split pron_text))
        @ block_ops (fst POS_DEFINITION)
            (row_start_y L + row_h_title L + SPACING + row_h_pron L + SPACING)
            (field_line_height P def_text (FONT_FILES normal) (row_def_size L) ''Medium''
               MAX_WIDTH 1.2)
            (row_f_def L) ''black'' (wrap_lines P (row_f_def L) MAX_WIDTH (split def_text))) \<and>
     row_h_title L =
       of_nat (length (wrap_lines P (row_f_title L) MAX_WIDTH (split title_text)))
       * field_line_height P title_text (FONT_FILES normal) (row_title_size L) ''Bold''
           MAX_WIDTH 1 \<and>
     row_h_pron L =
       of_nat (length (wrap_lines P (row_f_pron L) MAX_WIDTH (split pron_text)))
       * field_line_height P pron_text (FONT_FILES italic) (st_size (STYLES Pronunciation))
           ''Italic'' MAX_WIDTH 1.2 \<and>
     row_h_def L =
       of_nat (length (wrap_lines P (row_f_def L) MAX_WIDTH (split def_text)))
       * field_line_height P def_text (FONT_FILES normal) (row_def_size L) ''Medium''
           MAX_WIDTH 1.2)"
proof (intro conjI impI)
  show "calculate_text_height P text font_file max_size variation max_width True line_spacing =
      (of_nat (length (wrap_lines P font max_width (split text)))
         * field_line_height P text font_file max_size variation max_width line_spacing,
       font, length (wrap_lines P font max_width (split text)))"
    by (rule calculate_text_height_resolved [OF res])
next
  from ok res have contract: "font_size P font = None \<or> font_size P font = Some size1 \<or>
       (\<forall>s. load_font P font_file s variation = font)"
    by (simp add: resolved_font_ok_def)
  note again = draw_pass_resolved [OF res contract]
  from again show "\<exists>size2.
       resolved P text font_file (getattr_size P font max_size) variation max_width =
         (size2, font) \<and>
       getattr_size P font size2 = getattr_size P font size1 \<and>
       (font_size P font = Some size1 \<longrightarrow> size2 = size1)" .
  from again res show "field_line_height P text font_file (getattr_size P font max_size)
        variation max_width line_spacing =
      field_line_height P text font_file max_size variation max_width line_spacing"
    by (auto simp: field_line_height_def)
next
  show "draw_text_wrapped P draw text (x, y) max_width font_file (getattr_size P font max_size)
        variation fill line_spacing =
      Inr (draw @ block_ops x y
             (field_line_height P text font_file max_size variation max_width line_spacing)
             font fill (wrap_lines P font max_width (split text)))"
    by (rule draw_text_wrapped_resolved [OF res ok])
next
  assume oks: "resolved_font_ok P title_text (FONT_FILES normal) (row_title_size L) ''Bold''
       MAX_WIDTH \<and>
     resolved_font_ok P pron_text (FONT_FILES italic) (st_size (STYLES Pronunciation))
       ''Italic'' MAX_WIDTH \<and>
     resolved_font_ok P def_text (FONT_FILES normal) (row_def_size L) ''Medium'' MAX_WIDTH"
  then have t_ok: "resolved_font_ok P title_text (FONT_FILES normal) (row_title_size L)
       ''Bold'' MAX_WIDTH"
    and p_ok: "resolved_font_ok P pron_text (FONT_FILES italic)
       (st_size (STYLES Pronunciation)) ''Italic'' MAX_WIDTH"
    and d_ok: "resolved_font_ok P def_text (FONT_FILES normal) (row_def_size L) ''Medium''
       MAX_WIDTH"
    by simp_all
  from draw_row_blocks [OF L t_ok p_ok d_ok, of draw]
  show "draw_row P draw L title_text pron_text def_text =
      Inr (draw
        @ block_ops (fst POS_TITLE) (row_start_y L)
            (field_line_height P title_text (FONT_FILES normal) (row_title_size L) ''Bold''
               MAX_WIDTH 1)
            (row_f_title L) ''black'' (wrap_lines P (row_f_title L) MAX_WIDTH (split title_text))
        @ block_ops (fst POS_PRONUNCIATION) (row_start_y L + row_h_title L + SPACING)
            (field_line_height P pron_text (FONT_FILES italic) (st_size (STYLES Pronunciation))
               ''Italic'' MAX_WIDTH 1.2)
            (row_f_pron L) ''black'' (wrap_lines P (row_f_pron L) MAX_WIDTH (split pron_text))
        @ block_ops (fst POS_DEFINITION)
            (row_start_y L + row_h_title L + SPACING + row_h_pron L + SPACING)
            (field_line_height P def_text (FONT_FILES normal) (row_def_size L) ''Medium''
               MAX_WIDTH 1.2)
            (row_f_def L) ''black'' (wrap_lines P (row_f_def L) MAX_WIDTH (split def_text)))"
    and "row_h_title L =
       of_nat (length (wrap_lines P (row_f_title L) MAX_WIDTH (split title_text)))
       * field_line_height P title_text (FONT_FILES normal) (row_title_size L) ''Bold''
           MAX_WIDTH 1"
    and "row_h_pron L =
       of_nat (length (wrap_lines P (row_f_pron L) MAX_WIDTH (split pron_text)))
       * field_line_height P pron_text (FONT_FILES italic) (st_size (STYLES Pronunciation))
           ''Italic'' MAX_WIDTH 1.2"
    and "row_h_def L =
       of_nat (length (wrap_lines P (row_f_def L) MAX_WIDTH (split def_text)))
       * field_line_height P def_text (FONT_FILES normal) (row_def_size L) ''Medium''
           MAX_WIDTH 1.2"
    by blast+
qed


theorem draw_matches_measurement_witness:
  "resolved demo_pil ''Hello World WWWWWWW'' (FONT_FILES normal) 255 ''Bold'' MAX_WIDTH =
     (229, FreeTypeFont ''Cabin-Variable.ttf'' 229 ''Bold'') \<and>
   resolved_font_ok demo_pil ''Hello World WWWWWWW'' (FONT_FILES normal) 255 ''Bold'' MAX_WIDTH \<and>
   calculate_text_height demo_pil ''Hello World WWWWWWW'' (FONT_FILES normal) 255 ''Bold''
     MAX_WIDTH True 1.2 = (2748 / 5, FreeTypeFont ''Cabin-Variable.ttf'' 229 ''Bold'', 2) \<and>
   draw_text_wrapped demo_pil [] ''Hello World WWWWWWW'' (2100, 100) MAX_WIDTH
     (FONT_FILES normal) 229 ''Bold'' ''black'' 1.2 =
     Inr [((2100, 100), ''Hello World'', FreeTypeFont ''Cabin-Variable.ttf'' 229 ''Bold'',
           ''black''),
          ((2100, 100 + 1374 / 5), ''WWWWWWW'', FreeTypeFont ''Cabin-Variable.ttf'' 229 ''Bold'',
           ''black'')] \<and>
   resolved_font_ok demo_pil ''Hello World'' (FONT_FILES normal) 255 ''Bold'' MAX_WIDTH \<and>
   resolved_font_ok demo_pil ''helo'' (FONT_FILES italic) 116 ''Italic'' MAX_WIDTH \<and>
   resolved_font_ok demo_pil ''A common greeting'' (FONT_FILES normal) 157 ''Medium''
     MAX_WIDTH \<and>
   draw_row demo_pil []
     (layout_row demo_pil 2000 ''Hello World'' ''helo'' ''A common greeting'')
     ''Hello World'' ''helo'' ''A common greeting'' =
     Inr [((2100, 6087 / 10), ''Hello World'',
           FreeTypeFont ''Cabin-Variable.ttf'' 255 ''Bold'', ''black''),
          ((2100, 9637 / 10), ''helo'',
           FreeTypeFont ''Cabin-Italic-Variable.ttf'' 116 ''Italic'', ''black''),
          ((2100, 12029 / 10), ''A common greeting'',
           FreeTypeFont ''Cabin-Variable.ttf'' 157 ''Medium'', ''black'')]"
proof -
  let ?font = "FreeTypeFont ''Cabin-Variable.ttf'' 229 ''Bold''"
  have res: "resolved demo_pil ''Hello World WWWWWWW'' (FONT_FILES normal) 255 ''Bold''
      MAX_WIDTH = (229, ?font)"
    by (simp add: resolved_def demo_eval text_eval)
  have ok: "resolved_font_ok demo_pil ''Hello World WWWWWWW'' (FONT_FILES normal) 255 ''Bold''
      MAX_WIDTH"
    by (simp add: resolved_font_ok_def resolved_def demo_eval text_eval)
  have t_ok: "resolved_font_ok demo_pil ''Hello World'' (FONT_FILES normal) 255 ''Bold''
      MAX_WIDTH"
    by (simp add: resolved_font_ok_def resolved_def demo_eval text_eval)
  have p_ok: "resolved_font_ok demo_pil ''helo'' (FONT_FILES italic) 116 ''Italic'' MAX_WIDTH"
    by (simp add: resolved_font_ok_def resolved_def demo_eval text_eval)
  have d_ok: "resolved_font_ok demo_pil ''A common greeting'' (FONT_FILES normal) 157
      ''Medium'' MAX_WIDTH"
    by (simp add: resolved_font_ok_def resolved_def demo_eval text_eval)
  have L: "layout_row demo_pil 2000 ''Hello World'' ''helo'' ''A common greeting'' =
      \<lparr>row_title_size = 255, row_h_title = 255,
       row_f_title = FreeTypeFont ''Cabin-Variable.ttf'' 255 ''Bold'', row_title_lines = 1,
       row_def_size = 157, row_h_def = 942 / 5,
       row_f_def = FreeTypeFont ''Cabin-Variable.ttf'' 157 ''Medium'', row_line_count = 1,
       row_h_pron = 696 / 5,
       row_f_pron = FreeTypeFont ''Cabin-Italic-Variable.ttf'' 116 ''Italic'',
       row_total_height = 3913 / 5, row_start_y = 6087 / 10\<rparr>"
    by (simp add: layout_row_def measure_eval demo_eval text_eval SPACING_def)
  have lines: "wrap_lines demo_pil ?font MAX_WIDTH [''Hello'', ''World'', ''WWWWWWW''] =
      [''Hello World'', ''WWWWWWW'']"
    "wrap_lines demo_pil (FreeTypeFont ''Cabin-Variable.ttf'' 255 ''Bold'') MAX_WIDTH
       [''Hello'', ''World''] = [''Hello World'']"
    "wrap_lines demo_pil (FreeTypeFont ''Cabin-Italic-Variable.ttf'' 116 ''Italic'') MAX_WIDTH
       [''helo''] = [''helo'']"
    "wrap_lines demo_pil (FreeTypeFont ''Cabin-Variable.ttf'' 157 ''Medium'') MAX_WIDTH
       [''A'', ''common'', ''greeting''] = [''A common greeting'']"
    by (simp_all add: wrap_lines_def demo_pil_def glyph_units_def MAX_WIDTH_def)
  have words: "split ''Hello World WWWWWWW'' = [''Hello'', ''World'', ''WWWWWWW'']"
    "split ''Hello World'' = [''Hello'', ''World'']" "split ''helo'' = [''helo'']"
    "split ''A common greeting'' = [''A'', ''common'', ''greeting'']"
    by (simp_all add: text_eval)
  have size: "getattr_size demo_pil (FreeTypeFont ff sz v) s = sz" for ff sz v s
    by (simp add: getattr_size_def demo_pil_def)
  have heights:
    "field_line_height demo_pil ''Hello World WWWWWWW'' ''Cabin-Variable.ttf'' 255 ''Bold''
       MAX_WIDTH (6 / 5) = 1374 / 5"
    "field_line_height demo_pil ''Hello World'' ''Cabin-Variable.ttf'' 255 ''Bold'' MAX_WIDTH 1
       = 255"
    "field_line_height demo_pil ''helo'' ''Cabin-Italic-Variable.ttf'' 116 ''Italic''
       MAX_WIDTH (6 / 5) = 696 / 5"
    "field_line_height demo_pil ''A common greeting'' ''Cabin-Variable.ttf'' 157 ''Medium''
       MAX_WIDTH (6 / 5) = 942 / 5"
    by (simp_all add: field_line_height_def resolved_def demo_eval text_eval getattr_size_def)
  note inst = draw_matches_measurement [OF res ok refl,
      where line_spacing = "1.2" and draw = "[]" and x = 2100 and y = 100
        and fill = "''black''" and image_height = 2000 and title_text = "''Hello World''"
        and pron_text = "''helo''" and def_text = "''A common greeting''"]
  from inst have field: "calculate_text_height demo_pil ''Hello World WWWWWWW''
       (FONT_FILES normal) 255 ''Bold'' MAX_WIDTH True 1.2 = (2748 / 5, ?font, 2)"
    "draw_text_wrapped demo_pil [] ''Hello World WWWWWWW'' (2100, 100) MAX_WIDTH
       (FONT_FILES normal) 229 ''Bold'' ''black'' 1.2 =
     Inr [((2100, 100), ''Hello World'', ?font, ''black''),
          ((2100, 100 + 1374 / 5), ''WWWWWWW'', ?font, ''black'')]"
    by (simp_all add: words lines size heights block_ops_def)
  from inst t_ok p_ok d_ok have "draw_row demo_pil []
     (layout_row demo_pil 2000 ''Hello World'' ''helo'' ''A common greeting'')
     ''Hello World'' ''helo'' ''A common greeting'' =
     Inr [((2100, 6087 / 10), ''Hello World'',
           FreeTypeFont ''Cabin-Variable.ttf'' 255 ''Bold'', ''black''),
          ((2100, 9637 / 10), ''helo'',
           FreeTypeFont ''Cabin-Italic-Variable.ttf'' 116 ''Italic'', ''black''),
          ((2100, 12029 / 10), ''A common greeting'',
           FreeTypeFont ''Cabin-Variable.ttf'' 157 ''Medium'', ''black'')]"
    by (simp add: L words lines heights block_ops_def SPACING_def POS_TITLE_def
        POS_PRONUNCIATION_def POS_DEFINITION_def)
  with res ok field t_ok p_ok d_ok show ?thesis by simp
qed


section \<open>Rounding to doubles\<close>

lemma double_round_binade:
  assumes lo: "2 ^ e \<le> \<bar>x\<bar>" and hi: "\<bar>x\<bar> < 2 ^ Suc e" and e: "e \<le> 52"
  shows "double_round x = of_int (round_half_even (x * 2 ^ (52 - e))) / 2 ^ (52 - e)"
proof -
  from lo have pos: "0 < \<bar>x\<bar>"
    by (meson less_le_trans zero_less_numeral zero_less_power)
  then have nz: "x \<noteq> 0" by simp
  have fl: "\<lfloor>log 2 \<bar>x\<bar>\<rfloor> = int e"
  proof -
    have "2 powr (of_int (int e)) \<le> \<bar>x\<bar>"
      using lo by (simp add: powr_realpow)
    moreover have "\<bar>x\<bar> < 2 powr (of_int (int e + 1))"
      using hi by (simp add: powr_realpow powr_add)
    ultimately show ?thesis
      using pos by (simp add: floor_log_eq_powr_iff)
  qed
  have eq: "of_int (int e) - (52::real) = - real (52 - e)"
    using e by simp
  have "2 powr (of_int (int e) - 52) = 2 powr (- real (52 - e))"
    by (simp only: eq)
  also have "\<dots> = 1 / 2 powr real (52 - e)"
    by (simp only: powr_minus_divide)
  also have "\<dots> = 1 / (2 ^ (52 - e) :: real)"
    by (simp only: powr_realpow [OF zero_less_numeral])
  finally have u: "2 powr (of_int (int e) - 52) = 1 / (2 ^ (52 - e) :: real)" .
  have "double_round x =
      of_int (round_half_even (x / (1 / 2 ^ (52 - e)))) * (1 / 2 ^ (52 - e))"
    using nz by (simp only: double_round_def fl u Let_def if_False)
  then show ?thesis by simp
qed

lemma round_half_even_near:
  assumes "of_int n - 1 / 2 < q" and "q < of_int n + 1 / 2"
  shows "round_half_even q = n"
proof (cases "of_int n \<le> q")
  case True
  with assms have "\<lfloor>q\<rfloor> = n" by (intro floor_unique) simp_all
  with assms show ?thesis by (simp add: round_half_even_def Let_def)
next
  case False
  with assms have "\<lfloor>q\<rfloor> = n - 1" by (intro floor_unique) simp_all
  with assms False show ?thesis by (simp add: round_half_even_def Let_def)
qed

lemma round_half_even_tie:
  assumes "q = of_int f + 1 / 2"
  shows "round_half_even q = (if even f then f else f + 1)"
proof -
  from assms have "\<lfloor>q\<rfloor> = f" by (intro floor_unique) simp_all
  with assms show ?thesis by (simp add: round_half_even_def Let_def)
qed

lemma double_round_near:
  assumes "2 ^ e \<le> \<bar>x\<bar>" and "\<bar>x\<bar> < 2 ^ Suc e" and "e \<le> 52"
    and "of_int n - 1 / 2 < x * 2 ^ (52 - e)" and "x * 2 ^ (52 - e) < of_int n + 1 / 2"
  shows "double_round x = of_int n / 2 ^ (52 - e)"
  using double_round_binade [OF assms(1-3)] round_half_even_near [OF assms(4,5)] by simp

lemma double_round_tie:
  assumes "2 ^ e \<le> \<bar>x\<bar>" and "\<bar>x\<bar> < 2 ^ Suc e" and "e \<le> 52"
    and "x * 2 ^ (52 - e) = of_int f + 1 / 2"
  shows "double_round x = of_int (if even f then f else f + 1) / 2 ^ (52 - e)"
  using double_round_binade [OF assms(1-3)] round_half_even_tie [OF assms(4)] by simp

lemma double_1_2: "double_round 1.2 = 5404319552844595 / 4503599627370496"
  using double_round_near [of 0 "1.2" 5404319552844595] by simp

lemma line_height_116:
  "line_height_double 116 (5404319552844595 / 4503599627370496) =
     2448832297382707 / 17592186044416"
  unfolding line_height_double_def
  using double_round_near [of 7 "of_int 116 * (5404319552844595 / 4503599627370496)"
      4897664594765414]
  by simp

lemma block_height_6:
  "block_height_double 6 (2448832297382707 / 17592186044416) =
     7346496892148121 / 8796093022208"
  unfolding block_height_double_def
  using double_round_near [of 9 "of_nat 6 * (2448832297382707 / 17592186044416)"
      7346496892148121]
  by simp

lemma y_steps:
  "double_round (0 + 2448832297382707 / 17592186044416) = 2448832297382707 / 17592186044416"
  "double_round (2448832297382707 / 17592186044416 + 2448832297382707 / 17592186044416) =
     2448832297382707 / 8796093022208"
  "double_round (2448832297382707 / 8796093022208 + 2448832297382707 / 17592186044416) =
     7346496892148121 / 17592186044416"
  "double_round (7346496892148121 / 17592186044416 + 2448832297382707 / 17592186044416) =
     2448832297382707 / 4398046511104"
  "double_round (2448832297382707 / 4398046511104 + 2448832297382707 / 17592186044416) = 696"
  "double_round (696 + 2448832297382707 / 17592186044416) = 3673248446074061 / 4398046511104"
proof -
  show "double_round (0 + 2448832297382707 / 17592186044416) =
      2448832297382707 / 17592186044416"
    using double_round_near [of 7 "0 + 2448832297382707 / 17592186044416" 4897664594765414]
    by simp
  show "double_round (2448832297382707 / 17592186044416 + 2448832297382707 / 17592186044416) =
     2448832297382707 / 8796093022208"
    using double_round_near [of 8
        "2448832297382707 / 17592186044416 + 2448832297382707 / 17592186044416"
        4897664594765414]
    by simp
  show "double_round (2448832297382707 / 8796093022208 + 2448832297382707 / 17592186044416) =
     7346496892148121 / 17592186044416"
    using double_round_near [of 8
        "2448832297382707 / 8796093022208 + 2448832297382707 / 17592186044416"
        7346496892148121]
    by simp
  show "double_round (7346496892148121 / 17592186044416 + 2448832297382707 / 17592186044416) =
     2448832297382707 / 4398046511104"
    using double_round_near [of 9
        "7346496892148121 / 17592186044416 + 2448832297382707 / 17592186044416"
        4897664594765414]
    by simp
  show "double_round (2448832297382707 / 4398046511104 + 2448832297382707 / 17592186044416) =
      696"
    using double_round_tie [of 9
        "2448832297382707 / 4398046511104 + 2448832297382707 / 17592186044416"
        6122080743456767]
    by simp
  show "double_round (696 + 2448832297382707 / 17592186044416) =
      3673248446074061 / 4398046511104"
    using double_round_tie [of 9 "696 + 2448832297382707 / 17592186044416" 7346496892148121]
    by simp
qed

text \<open>
  A pronunciation of six words of ten wide glyphs wraps to six lines at size 116 with
  line spacing 1.2. In doubles the line height is the double nearest to 139.2; six times
  it is 835.1999999999999 (the measured height), while adding it six times to 0 gives
  835.2: the \<open>y\<close> reached after the six lines is not the starting \<open>y\<close> plus the
  measured height.
\<close>

theorem drawn_advance_double_counterexample:
  "calculate_text_height demo_pil
     ''WWWWWWWWWW WWWWWWWWWW WWWWWWWWWW WWWWWWWWWW WWWWWWWWWW WWWWWWWWWW''
     (FONT_FILES italic) 116 ''Italic'' MAX_WIDTH True 1.2 =
     (4176 / 5, FreeTypeFont ''Cabin-Italic-Variable.ttf'' 116 ''Italic'', 6) \<and>
   wrap_lines demo_pil (FreeTypeFont ''Cabin-Italic-Variable.ttf'' 116 ''Italic'') MAX_WIDTH
     (split ''WWWWWWWWWW WWWWWWWWWW WWWWWWWWWW WWWWWWWWWW WWWWWWWWWW WWWWWWWWWW'') =
     [''WWWWWWWWWW'', ''WWWWWWWWWW'', ''WWWWWWWWWW'',
      ''WWWWWWWWWW'', ''WWWWWWWWWW'', ''WWWWWWWWWW''] \<and>
   getattr_size demo_pil (FreeTypeFont ''Cabin-Italic-Variable.ttf'' 116 ''Italic'') 116 = 116 \<and>
   block_height_double 6 (line_height_double 116 (double_round 1.2)) =
     7346496892148121 / 8796093022208 \<and>
   y_after_lines_double 0 (line_height_double 116 (double_round 1.2))
     [''WWWWWWWWWW'', ''WWWWWWWWWW'', ''WWWWWWWWWW'',
      ''WWWWWWWWWW'', ''WWWWWWWWWW'', ''WWWWWWWWWW''] = 3673248446074061 / 4398046511104 \<and>
   y_after_lines_double 0 (line_height_double 116 (double_round 1.2))
     [''WWWWWWWWWW'', ''WWWWWWWWWW'', ''WWWWWWWWWW'',
      ''WWWWWWWWWW'', ''WWWWWWWWWW'', ''WWWWWWWWWW''] \<noteq>
   0 + block_height_double 6 (line_height_double 116 (double_round 1.2))"
proof -
  have m: "calculate_text_height demo_pil
     ''WWWWWWWWWW WWWWWWWWWW WWWWWWWWWW WWWWWWWWWW WWWWWWWWWW WWWWWWWWWW''
     (FONT_FILES italic) 116 ''Italic'' MAX_WIDTH True 1.2 =
     (4176 / 5, FreeTypeFont ''Cabin-Italic-Variable.ttf'' 116 ''Italic'', 6)"
    by (simp add: measure_eval demo_eval text_eval)
  have w: "wrap_lines demo_pil (FreeTypeFont ''Cabin-Italic-Variable.ttf'' 116 ''Italic'')
     MAX_WIDTH (split ''WWWWWWWWWW WWWWWWWWWW WWWWWWWWWW WWWWWWWWWW WWWWWWWWWW WWWWWWWWWW'') =
     [''WWWWWWWWWW'', ''WWWWWWWWWW'', ''WWWWWWWWWW'',
      ''WWWWWWWWWW'', ''WWWWWWWWWW'', ''WWWWWWWWWW'']"
    by (simp add: wrap_lines_def text_eval demo_pil_def glyph_units_def MAX_WIDTH_def)
  have g: "getattr_size demo_pil (FreeTypeFont ''Cabin-Italic-Variable.ttf'' 116 ''Italic'')
      116 = 116"
    by (simp add: getattr_size_def demo_pil_def)
  have h: "block_height_double 6 (line_height_double 116 (double_round 1.2)) =
     7346496892148121 / 8796093022208"
    by (simp only: double_1_2 line_height_116 block_height_6)
  have y: "y_after_lines_double 0 (line_height_double 116 (double_round 1.2))
     [''WWWWWWWWWW'', ''WWWWWWWWWW'', ''WWWWWWWWWW'',
      ''WWWWWWWWWW'', ''WWWWWWWWWW'', ''WWWWWWWWWW''] = 3673248446074061 / 4398046511104"
    by (simp only: double_1_2 line_height_116 y_after_lines_double.simps y_steps)
  have "(3673248446074061 / 4398046511104 :: real) \<noteq> 0 + 7346496892148121 / 8796093022208"
    by simp
  with m w g h y show ?thesis by (simp only: simp_thms)
qed

end
